theory Spec2Isabelle
  imports Main
begin

section \<open>Hook lengths of d-complete posets (\<^verbatim>\<open>sage/combinat/posets/d_complete.py\<close>)\<close>

subsection \<open>Exceptions\<close>

text \<open>
  The Python exceptions the two modelled modules can raise. A raise is the left summand
  of a result \<open>exn + 'r\<close>.
\<close>

datatype exn = KeyError | IndexError | NotImplementedError

subsection \<open>The poset collaborator\<close>

text \<open>
  \<^verbatim>\<open>DCompletePoset\<close> inherits from \<^verbatim>\<open>FinitePoset\<close>, whose code is not part of the
  sources at hand. \<^verbatim>\<open>_hooks\<close> only calls the queries below on \<^verbatim>\<open>self\<close>, so the
  poset is taken as the record of these queries. Python lists and tuples are lists and
  tuples; the order of a returned list is the enumeration order the loops see.
  \<open>all_paths P mn mx\<close> stands for
  \<^verbatim>\<open>self._hasse_diagram.all_paths(self._element_to_vertex(mn), self._element_to_vertex(mx))\<close>
  (the relabelling of elements to vertices is a bijection and is left out).
  \<open>elements\<close> is the list of the elements of the poset (\<^verbatim>\<open>list(self)\<close>).
\<close>

record 'a poset =
  elements :: "'a list"
  lower_covers :: "'a \<Rightarrow> 'a list"
  upper_covers :: "'a \<Rightarrow> 'a list"
  minimal_elements :: "'a list"
  order_ideal_cardinality :: "'a list \<Rightarrow> int"
  all_paths :: "'a \<Rightarrow> 'a \<Rightarrow> 'a list list"
  diamonds :: "('a \<times> 'a \<times> 'a \<times> 'a) list"

text \<open>The covering relation a poset's \<open>upper_covers\<close> query describes.\<close>

definition covers :: "'a poset \<Rightarrow> ('a \<times> 'a) set" where
  "covers P = {(x, y). y \<in> set (upper_covers P x)}"

subsection \<open>Finding the double-tailed diamonds (lines 76--115)\<close>

text \<open>
  The three dictionaries \<^verbatim>\<open>min_diamond\<close>, \<^verbatim>\<open>max_diamond\<close> and \<^verbatim>\<open>diamond_index\<close>,
  threaded through the loops.
\<close>

record 'a dicts =
  min_diamond :: "'a \<rightharpoonup> 'a"
  max_diamond :: "'a \<rightharpoonup> 'a"
  diamond_index :: "'a \<rightharpoonup> nat"

definition no_dicts :: "'a dicts" where
  "no_dicts = \<lparr>min_diamond = Map.empty, max_diamond = Map.empty, diamond_index = Map.empty\<rparr>"

text \<open>
  The \<^verbatim>\<open>for (mn, mx) in [...]\<close> loop of lines 101--113: \<^verbatim>\<open>continue\<close> when \<^verbatim>\<open>mx\<close> does
  not have exactly one lower cover, \<^verbatim>\<open>break\<close> with success at the first pair joined by
  exactly two paths. \<open>None\<close> is \<^verbatim>\<open>found_diamond = False\<close> after the loop.
\<close>

fun scan_candidates :: "'a poset \<Rightarrow> ('a \<times> 'a) list \<Rightarrow> ('a \<times> 'a) option" where
  "scan_candidates P [] = None"
| "scan_candidates P ((mn, mx) # rest) =
     (if length (lower_covers P mx) \<noteq> 1 then scan_candidates P rest
      else if length (all_paths P mn mx) = 2 then Some (mn, mx)
      else scan_candidates P rest)"

text \<open>The list \<^verbatim>\<open>[(i,j) for i in potential_min for j in potential_max]\<close> of line 101.\<close>

definition candidates :: "'a poset \<Rightarrow> 'a \<Rightarrow> 'a \<Rightarrow> ('a \<times> 'a) list" where
  "candidates P min_elmt max_elmt =
     (let potential_min = lower_covers P min_elmt;
          potential_max = upper_covers P max_elmt
      in [(i, j). i \<leftarrow> potential_min, j \<leftarrow> potential_max])"

text \<open>
  One pass through the body of \<^verbatim>\<open>while True\<close> (lines 95--115). The loop state is the
  dictionaries with \<^verbatim>\<open>min_elmt\<close> and \<^verbatim>\<open>max_elmt\<close>. \<open>None\<close>: no pair was found, the loop
  is left; \<open>Some\<close>: the state after lines 106--112.
\<close>

definition extend_step ::
  "'a poset \<Rightarrow> nat \<Rightarrow> 'a dicts \<times> 'a \<times> 'a \<Rightarrow> ('a dicts \<times> 'a \<times> 'a) option" where
  "extend_step P index s =
     (case s of (D, min_elmt, max_elmt) \<Rightarrow>
        (case scan_candidates P (candidates P min_elmt max_elmt) of
           None \<Rightarrow> None
         | Some (mn, mx) \<Rightarrow>
             Some (D\<lparr>min_diamond := (min_diamond D)(mx \<mapsto> mn),
                     max_diamond := (max_diamond D)(mn \<mapsto> mx),
                     diamond_index := (diamond_index D)(mx \<mapsto> index)\<rparr>, mn, mx)))"

text \<open>The \<^verbatim>\<open>while True\<close> loop itself. It need not end: \<open>None\<close> is the run that never leaves it.\<close>

partial_function (option) extend_loop ::
  "'a poset \<Rightarrow> nat \<Rightarrow> 'a dicts \<times> 'a \<times> 'a \<Rightarrow> 'a dicts option" where
  "extend_loop P index s =
     (case extend_step P index s of
        None \<Rightarrow> Some (fst s)
      | Some s' \<Rightarrow> extend_loop P index s')"

declare extend_loop.simps [code]

text \<open>
  The same body run a given number of times: \<open>extend_iter P index k s = Some s'\<close> says that
  the loop, started in \<open>s\<close>, finds a pair in each of its first \<open>k\<close> passes and is then in
  state \<open>s'\<close>.
\<close>

fun extend_iter ::
  "'a poset \<Rightarrow> nat \<Rightarrow> nat \<Rightarrow> 'a dicts \<times> 'a \<times> 'a \<Rightarrow> ('a dicts \<times> 'a \<times> 'a) option" where
  "extend_iter P index 0 s = Some s"
| "extend_iter P index (Suc k) s =
     (case extend_step P index s of
        None \<Rightarrow> None
      | Some s' \<Rightarrow> extend_iter P index k s')"

text \<open>The \<^verbatim>\<open>for index, d in enumerate(diamonds)\<close> loop of lines 86--115.\<close>

fun for_diamonds ::
  "'a poset \<Rightarrow> (nat \<times> 'a \<times> 'a \<times> 'a \<times> 'a) list \<Rightarrow> 'a dicts \<Rightarrow> 'a dicts option" where
  "for_diamonds P [] D = Some D"
| "for_diamonds P ((index, d0, d1, d2, d3) # rest) D =
     (case extend_loop P index
             (D\<lparr>min_diamond := (min_diamond D)(d3 \<mapsto> d0),
                max_diamond := (max_diamond D)(d0 \<mapsto> d3),
                diamond_index := (diamond_index D)(d3 \<mapsto> index)\<rparr>, d0, d3) of
        None \<Rightarrow> None
      | Some D' \<Rightarrow> for_diamonds P rest D')"

definition find_diamonds :: "'a poset \<Rightarrow> 'a dicts option" where
  "find_diamonds P = for_diamonds P (List.enumerate 0 (diamonds P)) no_dicts"

subsection \<open>Computing the hooks (lines 117--137)\<close>

text \<open>
  Lines 123--129 for one dequeued element. Every dictionary lookup of line 129 that misses
  raises \<^verbatim>\<open>KeyError\<close>; they are made in the order Python evaluates them.
\<close>

definition visit :: "'a poset \<Rightarrow> 'a dicts \<Rightarrow> 'a \<Rightarrow> ('a \<rightharpoonup> int) \<Rightarrow> exn + ('a \<rightharpoonup> int)" where
  "visit P D elmt hooks =
     (case diamond_index D elmt of
        None \<Rightarrow> Inr (hooks(elmt \<mapsto> order_ideal_cardinality P [elmt]))
      | Some i \<Rightarrow>
          if \<not> i < length (diamonds P) then Inl IndexError
          else (case diamonds P ! i of (d0, side1, side2, d3) \<Rightarrow>
            (case hooks side1 of None \<Rightarrow> Inl KeyError | Some h1 \<Rightarrow>
            (case hooks side2 of None \<Rightarrow> Inl KeyError | Some h2 \<Rightarrow>
            (case min_diamond D elmt of None \<Rightarrow> Inl KeyError | Some b \<Rightarrow>
            (case hooks b of None \<Rightarrow> Inl KeyError | Some hb \<Rightarrow>
               Inr (hooks(elmt \<mapsto> h1 + h2 - hb))))))))"

text \<open>Lines 132--135: the upper covers not yet enqueued join the queue.\<close>

fun enqueue_covers :: "'a list \<Rightarrow> 'a list \<times> 'a set \<Rightarrow> 'a list \<times> 'a set" where
  "enqueue_covers [] (queue, enqueued) = (queue, enqueued)"
| "enqueue_covers (c # cs) (queue, enqueued) =
     (if c \<notin> enqueued then enqueue_covers cs (queue @ [c], insert c enqueued)
      else enqueue_covers cs (queue, enqueued))"

text \<open>
  One pass through the body of \<^verbatim>\<open>while queue\<close> for the state (queue, enqueued, hooks) with
  a non-empty queue \<open>elmt # rest\<close>.
\<close>

definition bfs_step ::
  "'a poset \<Rightarrow> 'a dicts \<Rightarrow> 'a \<Rightarrow> 'a list \<Rightarrow> 'a set \<Rightarrow> ('a \<rightharpoonup> int) \<Rightarrow>
   exn + ('a list \<times> 'a set \<times> ('a \<rightharpoonup> int))" where
  "bfs_step P D elmt rest enqueued hooks =
     (case visit P D elmt hooks of
        Inl e \<Rightarrow> Inl e
      | Inr hooks' \<Rightarrow>
          (case enqueue_covers (upper_covers P elmt) (rest, insert elmt enqueued) of
             (queue', enqueued') \<Rightarrow> Inr (queue', enqueued', hooks')))"

text \<open>
  The \<^verbatim>\<open>while queue\<close> loop of lines 120--135. It returns the dictionary of hooks once the
  queue is empty, and passes on the exception of a pass that raises.
\<close>

partial_function (option) bfs ::
  "'a poset \<Rightarrow> 'a dicts \<Rightarrow> 'a list \<times> 'a set \<times> ('a \<rightharpoonup> int) \<Rightarrow> (exn + ('a \<rightharpoonup> int)) option" where
  "bfs P D s =
     (case s of (queue, enqueued, hooks) \<Rightarrow>
       (case queue of
          [] \<Rightarrow> Some (Inr hooks)
        | elmt # rest \<Rightarrow>
            (case bfs_step P D elmt rest enqueued hooks of
               Inl e \<Rightarrow> Some (Inl e)
             | Inr s' \<Rightarrow> bfs P D s')))"

declare bfs.simps [code]

text \<open>
  The body of \<^verbatim>\<open>while queue\<close> run \<open>k\<close> times (or until the queue is empty): the state of
  the loop after \<open>k\<close> passes, or the exception one of them raised.
\<close>

fun bfs_iter ::
  "'a poset \<Rightarrow> 'a dicts \<Rightarrow> nat \<Rightarrow> 'a list \<times> 'a set \<times> ('a \<rightharpoonup> int) \<Rightarrow>
   exn + ('a list \<times> 'a set \<times> ('a \<rightharpoonup> int))" where
  "bfs_iter P D 0 s = Inr s"
| "bfs_iter P D (Suc k) s =
     (case s of
        ([], enqueued, hooks) \<Rightarrow> Inr s
      | (elmt # rest, enqueued, hooks) \<Rightarrow>
          (case bfs_step P D elmt rest enqueued hooks of
             Inl e \<Rightarrow> Inl e
           | Inr s' \<Rightarrow> bfs_iter P D k s'))"

text \<open>
  Lines 118--119: the loop starts with the minimal elements in the queue, with nothing
  enqueued and with no hooks.
\<close>

definition compute_hooks :: "'a poset \<Rightarrow> 'a dicts \<Rightarrow> (exn + ('a \<rightharpoonup> int)) option" where
  "compute_hooks P D = bfs P D (minimal_elements P, {}, Map.empty)"

text \<open>
  The body of \<^verbatim>\<open>DCompletePoset._hooks\<close>. \<open>None\<close>: the body does not return;
  \<open>Some (Inl e)\<close>: it raises \<open>e\<close>; \<open>Some (Inr h)\<close>: it returns the dictionary \<open>h\<close>.
\<close>

definition DCompletePoset_hooks :: "'a poset \<Rightarrow> (exn + ('a \<rightharpoonup> int)) option" where
  "DCompletePoset_hooks P =
     (case find_diamonds P of
        None \<Rightarrow> None
      | Some D \<Rightarrow> compute_hooks P D)"

subsection \<open>The public accessors (lines 58--59 and 139--168)\<close>

text \<open>
  \<^verbatim>\<open>get_hooks\<close> hands out a new dictionary object and a caller may mutate it, so the
  dictionaries live in a store: \<open>heap s a\<close> is the content of the dictionary at address
  \<open>a\<close>, and \<open>next_addr s\<close> is the first address not yet given out. \<open>hooks_cache s\<close> is
  the entry \<^verbatim>\<open>_hooks\<close> of the instance's \<^verbatim>\<open>__dict__\<close>. \<open>evaluations s\<close> counts how
  often the body of \<^verbatim>\<open>_hooks\<close> has run; the program does not read it.
\<close>

type_synonym addr = nat

record 'a dcp_object =
  heap :: "addr \<Rightarrow> ('a \<rightharpoonup> int)"
  next_addr :: addr
  hooks_cache :: "addr option"
  evaluations :: nat

definition new_object :: "'a dcp_object" where
  "new_object = \<lparr>heap = (\<lambda>a. Map.empty), next_addr = 0, hooks_cache = None, evaluations = 0\<rparr>"

text \<open>A new dictionary object with content \<open>d\<close>.\<close>

definition alloc :: "('a \<rightharpoonup> int) \<Rightarrow> 'a dcp_object \<Rightarrow> addr \<times> 'a dcp_object" where
  "alloc d s =
     (next_addr s, s\<lparr>heap := (heap s)(next_addr s := d), next_addr := Suc (next_addr s)\<rparr>)"

text \<open>
  Modelled from the spec: the decorator \<^verbatim>\<open>lazy_attribute\<close> (of \<^verbatim>\<open>sage.misc\<close>, missing
  from the sources), as the spec has it: the mapping is computed on first access and
  cached for the lifetime of the instance. Reading \<^verbatim>\<open>self._hooks\<close> returns the cached
  object when there is one; otherwise it runs the body, and stores the dictionary the
  body returns. A raise of the body passes through and nothing is cached.
\<close>

definition hooks_attribute ::
  "'a poset \<Rightarrow> 'a dcp_object \<Rightarrow> ((exn + addr) \<times> 'a dcp_object) option" where
  "hooks_attribute P s =
     (case hooks_cache s of
        Some a \<Rightarrow> Some (Inr a, s)
      | None \<Rightarrow>
          (case DCompletePoset_hooks P of
             None \<Rightarrow> None
           | Some (Inl e) \<Rightarrow> Some (Inl e, s\<lparr>evaluations := Suc (evaluations s)\<rparr>)
           | Some (Inr h) \<Rightarrow>
               (case alloc h (s\<lparr>evaluations := Suc (evaluations s)\<rparr>) of
                  (a, s') \<Rightarrow> Some (Inr a, s'\<lparr>hooks_cache := Some a\<rparr>))))"

text \<open>\<^verbatim>\<open>get_hook\<close>, line 150: \<^verbatim>\<open>return self._hooks[elmt]\<close>.\<close>

definition get_hook ::
  "'a poset \<Rightarrow> 'a \<Rightarrow> 'a dcp_object \<Rightarrow> ((exn + int) \<times> 'a dcp_object) option" where
  "get_hook P elmt s =
     (case hooks_attribute P s of
        None \<Rightarrow> None
      | Some (Inl e, s') \<Rightarrow> Some (Inl e, s')
      | Some (Inr a, s') \<Rightarrow>
          (case heap s' a elmt of
             None \<Rightarrow> Some (Inl KeyError, s')
           | Some v \<Rightarrow> Some (Inr v, s')))"

text \<open>\<^verbatim>\<open>get_hooks\<close>, line 168: \<^verbatim>\<open>return dict(self._hooks)\<close>, a new dictionary object.\<close>

definition get_hooks ::
  "'a poset \<Rightarrow> 'a dcp_object \<Rightarrow> ((exn + addr) \<times> 'a dcp_object) option" where
  "get_hooks P s =
     (case hooks_attribute P s of
        None \<Rightarrow> None
      | Some (Inl e, s') \<Rightarrow> Some (Inl e, s')
      | Some (Inr a, s') \<Rightarrow>
          (case alloc (heap s' a) s' of (b, s'') \<Rightarrow> Some (Inr b, s'')))"

text \<open>
  What a caller can do to a dictionary it holds: replace its content (any sequence of
  item assignments and deletions amounts to one such replacement).
\<close>

definition mutate :: "addr \<Rightarrow> ('a \<rightharpoonup> int) \<Rightarrow> 'a dcp_object \<Rightarrow> 'a dcp_object" where
  "mutate a d s = s\<lparr>heap := (heap s)(a := d)\<rparr>"

text \<open>The cached object, when there is one, has been allocated.\<close>

definition cache_allocated :: "'a dcp_object \<Rightarrow> bool" where
  "cache_allocated s = (case hooks_cache s of None \<Rightarrow> True | Some a \<Rightarrow> a < next_addr s)"

section \<open>Images of continuous maps (\<^verbatim>\<open>sage/manifolds/continuous_map_image.py\<close>)\<close>

text \<open>
  \<^verbatim>\<open>ImageManifoldSubset.__contains__\<close>, lines 59--63. The two tests it calls,
  \<^verbatim>\<open>super().__contains__\<close> and membership in \<^verbatim>\<open>self._map.codomain()\<close>, belong to classes
  outside the sources and are parameters.
\<close>

definition ImageManifoldSubset_contains ::
  "('p \<Rightarrow> bool) \<Rightarrow> ('p \<Rightarrow> bool) \<Rightarrow> 'p \<Rightarrow> exn + bool" where
  "ImageManifoldSubset_contains super_contains in_codomain point =
     (if super_contains point then Inr True
      else if \<not> in_codomain point then Inr False
      else Inl NotImplementedError)"

section \<open>Posets for the examples\<close>

subsection \<open>A poset given by its Hasse diagram\<close>

text \<open>
  Modelled from the spec: the queries \<^verbatim>\<open>lower_covers(e)\<close> and \<^verbatim>\<open>upper_covers(e)\<close> of
  \<^verbatim>\<open>FinitePoset\<close>, whose code is missing: the direct predecessors and successors of \<open>e\<close>.
  The poset is given by the list \<open>V\<close> of its elements and the list \<open>E\<close> of its cover
  relations \<open>(lower, upper)\<close>; every enumeration follows the order of these two lists.
\<close>

definition lower_covers_of :: "('a \<times> 'a) list \<Rightarrow> 'a \<Rightarrow> 'a list" where
  "lower_covers_of E e = map fst (filter (\<lambda>c. snd c = e) E)"

definition upper_covers_of :: "('a \<times> 'a) list \<Rightarrow> 'a \<Rightarrow> 'a list" where
  "upper_covers_of E e = map snd (filter (\<lambda>c. fst c = e) E)"

text \<open>
  Modelled from the spec: the order ideal behind \<^verbatim>\<open>order_ideal_cardinality(S)\<close> (missing), the
  elements below some element of \<open>S\<close>: \<open>S\<close> closed downwards, in at most \<open>n\<close> rounds.
\<close>

fun order_ideal :: "nat \<Rightarrow> ('a \<times> 'a) list \<Rightarrow> 'a list \<Rightarrow> 'a list" where
  "order_ideal 0 E S = remdups S"
| "order_ideal (Suc n) E S =
     order_ideal n E (remdups (S @ map fst (filter (\<lambda>c. snd c \<in> set S) E)))"

text \<open>
  Modelled from the spec: the path query \<^verbatim>\<open>all_paths\<close> of the Hasse diagram (missing), the
  distinct simple directed paths between two elements. \<open>simple_paths n E seen x t\<close> lists
  the simple paths from \<open>x\<close> to \<open>t\<close> of at most \<open>n\<close> edges that avoid \<open>seen\<close>; \<open>paths_via\<close>
  collects those that leave \<open>x\<close> through one of the vertices \<open>ys\<close>, in order.
\<close>

fun simple_paths :: "nat \<Rightarrow> ('a \<times> 'a) list \<Rightarrow> 'a list \<Rightarrow> 'a \<Rightarrow> 'a \<Rightarrow> 'a list list"
  and paths_via :: "nat \<Rightarrow> ('a \<times> 'a) list \<Rightarrow> 'a list \<Rightarrow> 'a \<Rightarrow> 'a list \<Rightarrow> 'a \<Rightarrow> 'a list list"
where
  "simple_paths 0 E seen x t = (if x = t then [[x]] else [])"
| "simple_paths (Suc n) E seen x t =
     (if x = t then [[x]] else paths_via n E (x # seen) x (upper_covers_of E x) t)"
| "paths_via n E seen x [] t = []"
| "paths_via n E seen x (y # ys) t =
     (if y \<in> set seen then paths_via n E seen x ys t
      else map (\<lambda>p. x # p) (simple_paths n E seen y t) @ paths_via n E seen x ys t)"

text \<open>The pairs \<open>(x, y)\<close> of a list with \<open>x\<close> before \<open>y\<close>.\<close>

fun pairs :: "'a list \<Rightarrow> ('a \<times> 'a) list" where
  "pairs [] = []"
| "pairs (x # xs) = map (Pair x) xs @ pairs xs"

text \<open>
  Modelled from the spec: the query \<^verbatim>\<open>diamonds()\<close> (missing), the sequence of the base
  4-tuples (bottom, side1, side2, top). A diamond is \<open>(w, x, y, z)\<close> with \<open>x\<close> and \<open>y\<close> two
  upper covers of \<open>w\<close> and \<open>z\<close> an upper cover of both. The diamonds are listed by \<open>w\<close> in the
  order of the elements, then by the pair \<open>(x, y)\<close>, then by \<open>z\<close>.
\<close>

definition common_upper_covers :: "('a \<times> 'a) list \<Rightarrow> 'a \<Rightarrow> 'a \<Rightarrow> 'a list" where
  "common_upper_covers E x y =
     filter (\<lambda>z. z \<in> set (upper_covers_of E y)) (upper_covers_of E x)"

fun diamonds_above ::
  "('a \<times> 'a) list \<Rightarrow> 'a \<Rightarrow> ('a \<times> 'a) list \<Rightarrow> ('a \<times> 'a \<times> 'a \<times> 'a) list" where
  "diamonds_above E w [] = []"
| "diamonds_above E w ((x, y) # ps) =
     map (\<lambda>z. (w, x, y, z)) (common_upper_covers E x y) @ diamonds_above E w ps"

fun diamonds_of :: "'a list \<Rightarrow> ('a \<times> 'a) list \<Rightarrow> ('a \<times> 'a \<times> 'a \<times> 'a) list" where
  "diamonds_of [] E = []"
| "diamonds_of (w # ws) E =
     diamonds_above E w (pairs (upper_covers_of E w)) @ diamonds_of ws E"

text \<open>
  Modelled from the spec: the poset collaborator (\<^verbatim>\<open>FinitePoset\<close>, missing) for the Hasse
  diagram with the elements \<open>V\<close> and the cover relations \<open>E\<close>. The minimal elements are the
  elements without a lower cover; the rounds of the order ideal and the length of the
  paths are bounded by the number of elements.
\<close>

definition hasse_poset :: "'a list \<Rightarrow> ('a \<times> 'a) list \<Rightarrow> 'a poset" where
  "hasse_poset V E =
     \<lparr>elements = V,
      lower_covers = lower_covers_of E,
      upper_covers = upper_covers_of E,
      minimal_elements = filter (\<lambda>e. lower_covers_of E e = []) V,
      order_ideal_cardinality = (\<lambda>S. int (length (order_ideal (length V) E S))),
      all_paths = simple_paths (length V) E [],
      diamonds = diamonds_of V E\<rparr>"

subsection \<open>Example posets\<close>

text \<open>The single diamond of the doctests: \<^verbatim>\<open>DiGraph({0: [1, 2], 1: [3], 2: [3], 3: []})\<close>.\<close>

definition diamond4 :: "int poset" where
  "diamond4 = hasse_poset [0, 1, 2, 3] [(0, 1), (0, 2), (1, 3), (2, 3)]"

text \<open>
  The double-tailed diamond of the class docstring, \<^verbatim>\<open>Posets.DoubleTailedDiamond(2)\<close>:
  \<open>1 < 2 < 3, 4 < 5 < 6\<close>.
\<close>

definition double_tailed_diamond :: "int poset" where
  "double_tailed_diamond =
     hasse_poset [1, 2, 3, 4, 5, 6] [(1, 2), (2, 3), (2, 4), (3, 5), (4, 5), (5, 6)]"

text \<open>
  A diamond \<open>1 < 2, 3 < 4\<close> with the tail \<open>0 < 1\<close>, whose top \<open>4\<close> has three upper covers:
  \<open>5\<close>, which also covers \<open>7\<close>, and \<open>6\<close> and \<open>8\<close>, which cover \<open>4\<close> only.
\<close>

definition forked9 :: "int poset" where
  "forked9 = hasse_poset [0, 1, 2, 3, 4, 5, 6, 7, 8]
     [(0, 1), (1, 2), (1, 3), (2, 4), (3, 4), (4, 5), (7, 5), (4, 6), (4, 8)]"

text \<open>
  A double-tailed diamond with one more minimal element under a side:
  \<open>0 < 2 < 3 < 4, 5 < 6 < 7 < 8\<close> and \<open>1 < 4\<close>.
\<close>

definition tailed9 :: "int poset" where
  "tailed9 = hasse_poset [0, 1, 2, 3, 4, 5, 6, 7, 8]
     [(0, 2), (1, 4), (2, 3), (3, 4), (3, 5), (4, 6), (5, 6), (6, 7), (7, 8)]"

text \<open>The poset \<open>tailed9\<close> with its two minimal elements listed in the other order.\<close>

definition tailed9_swapped :: "int poset" where
  "tailed9_swapped = hasse_poset [1, 0, 2, 3, 4, 5, 6, 7, 8]
     [(0, 2), (1, 4), (2, 3), (3, 4), (3, 5), (4, 6), (5, 6), (6, 7), (7, 8)]"

text \<open>
  The Young diagram of the partition \<open>(3, 2, 2, 2)\<close> in the order the docstring tests use
  (\<^verbatim>\<open>Posets.YoungDiagramPoset(Partition([3,2,2,2]))._hasse_diagram.reverse()\<close>): the cell
  \<open>(0, 0)\<close> is the maximum and a cell is covered by its upper and its left neighbour. The
  cells are numbered row by row: \<open>0, 1, 2\<close> in the first row, then \<open>3, 4\<close>, \<open>5, 6\<close> and
  \<open>7, 8\<close>.
\<close>

definition young3222 :: "int poset" where
  "young3222 = hasse_poset [8, 7, 6, 5, 4, 3, 2, 1, 0]
     [(8, 6), (8, 7), (7, 5), (6, 4), (6, 5), (5, 3), (4, 1), (4, 3), (3, 0), (2, 1), (1, 0)]"

section \<open>Predicates of the specification and of the proofs\<close>

text \<open>
  The condition under which, in the words of the specification, a candidate pair extends
  the chain: the candidate top has exactly one lower cover, and exactly two paths lead
  from the candidate bottom to the candidate top.
\<close>

definition extends_chain :: "'a poset \<Rightarrow> 'a \<times> 'a \<Rightarrow> bool" where
  "extends_chain P c =
     (case c of (mn, mx) \<Rightarrow>
        length (lower_covers P mx) = 1 \<and> length (all_paths P mn mx) = 2)"

text \<open>
  What the specification says of the collaborator's answers about minimal elements and
  diamonds, as far as the hooks of minimal elements depend on it: a minimal element has no
  lower cover and generates an order ideal of one element, and the top of a diamond has a
  lower cover.
\<close>

definition minimal_queries_agree :: "'a poset \<Rightarrow> bool" where
  "minimal_queries_agree P \<longleftrightarrow>
     (\<forall>e \<in> set (minimal_elements P).
        lower_covers P e = [] \<and> order_ideal_cardinality P [e] = 1) \<and>
     (\<forall>(d0, d1, d2, d3) \<in> set (diamonds P). lower_covers P d3 \<noteq> [])"

text \<open>
  What the specification says of the collaborator's answers about covers and minimal
  elements: the covering relation is an acyclic relation on the elements of the poset,
  \<open>lower_covers\<close> is its converse, and the minimal elements are the elements without a
  lower cover.
\<close>

definition cover_queries_agree :: "'a poset \<Rightarrow> bool" where
  "cover_queries_agree P \<longleftrightarrow>
     covers P \<subseteq> set (elements P) \<times> set (elements P) \<and> acyclic (covers P) \<and>
     (\<forall>x y. x \<in> set (lower_covers P y) \<longrightarrow> y \<in> set (upper_covers P x)) \<and>
     set (minimal_elements P) = {e \<in> set (elements P). lower_covers P e = []}"

text \<open>
  What lines 123--129 establish for an element \<open>e\<close> in a dictionary \<open>h\<close> of hooks: the
  order-ideal cardinality when \<open>e\<close> is no key of \<^verbatim>\<open>diamond_index\<close>, and the diamond
  recurrence over entries of \<open>h\<close> otherwise.
\<close>

definition hook_ok :: "'a poset \<Rightarrow> 'a dicts \<Rightarrow> ('a \<rightharpoonup> int) \<Rightarrow> 'a \<Rightarrow> bool" where
  "hook_ok P D h e \<longleftrightarrow>
     (diamond_index D e = None \<longrightarrow> h e = Some (order_ideal_cardinality P [e])) \<and>
     (\<forall>i. diamond_index D e = Some i \<longrightarrow>
        i < length (diamonds P) \<and>
        (\<exists>d0 side1 side2 d3 h1 h2 b hb.
           diamonds P ! i = (d0, side1, side2, d3) \<and>
           h side1 = Some h1 \<and> h side2 = Some h2 \<and>
           min_diamond D e = Some b \<and> h b = Some hb \<and>
           h e = Some (h1 + h2 - hb)))"

text \<open>Every key of \<^verbatim>\<open>diamond_index\<close> has a lower cover, when the tops of the diamonds have.\<close>

definition keys_covered :: "'a poset \<Rightarrow> 'a dicts \<Rightarrow> bool" where
  "keys_covered P D \<longleftrightarrow> (\<forall>e. diamond_index D e \<noteq> None \<longrightarrow> lower_covers P e \<noteq> [])"

section \<open>Properties of the hook computation\<close>

subsection \<open>The queries of a Hasse diagram\<close>

lemma hasse_poset_queries [simp]:
  "elements (hasse_poset V E) = V"
  "lower_covers (hasse_poset V E) = lower_covers_of E"
  "upper_covers (hasse_poset V E) = upper_covers_of E"
  "minimal_elements (hasse_poset V E) = filter (\<lambda>e. lower_covers_of E e = []) V"
  "order_ideal_cardinality (hasse_poset V E) S = int (length (order_ideal (length V) E S))"
  "all_paths (hasse_poset V E) x t = simple_paths (length V) E [] x t"
  "diamonds (hasse_poset V E) = diamonds_of V E"
  by (simp_all add: hasse_poset_def)

lemmas poset_eval = upper_covers_of_def lower_covers_of_def common_upper_covers_def
  enumerate_eq_zip numeral_eq_Suc

lemma covers_iff: "(x, y) \<in> covers P \<longleftrightarrow> y \<in> set (upper_covers P x)"
  by (simp add: covers_def)

lemma covers_hasse_poset: "covers (hasse_poset V E) = set E"
  by (force simp: covers_def upper_covers_of_def)

lemma hasse_poset_cover_queries_agree:
  assumes "set E \<subseteq> set V \<times> set V" and "acyclic (set E)"
  shows "cover_queries_agree (hasse_poset V E)"
  unfolding cover_queries_agree_def covers_hasse_poset
  using assms by (force simp: lower_covers_of_def upper_covers_of_def)

subsection \<open>The greedy extension of a diamond chain\<close>

lemma scan_candidates_find:
  "scan_candidates P cs = find (extends_chain P) cs"
  by (induction P cs rule: scan_candidates.induct) (auto simp: extends_chain_def)

lemma set_candidates:
  "set (candidates P a b) = set (lower_covers P a) \<times> set (upper_covers P b)"
  by (auto simp: candidates_def)

lemma extend_step_None_iff:
  "extend_step P index (D, a, b) = None \<longleftrightarrow>
     find (extends_chain P) (candidates P a b) = None"
  by (auto simp: extend_step_def scan_candidates_find split: option.splits)

lemma extend_step_Some_iff:
  "extend_step P index (D, a, b) = Some (D', mn, mx) \<longleftrightarrow>
     find (extends_chain P) (candidates P a b) = Some (mn, mx) \<and>
     D' = D\<lparr>min_diamond := (min_diamond D)(mx \<mapsto> mn),
            max_diamond := (max_diamond D)(mn \<mapsto> mx),
            diamond_index := (diamond_index D)(mx \<mapsto> index)\<rparr>"
  by (auto simp: extend_step_def scan_candidates_find split: option.splits)

lemma extend_step_SomeD:
  assumes "extend_step P index (D, a, b) = Some (D', mn, mx)"
  shows "extends_chain P (mn, mx)" "mn \<in> set (lower_covers P a)" "mx \<in> set (upper_covers P b)"
    "D' = D\<lparr>min_diamond := (min_diamond D)(mx \<mapsto> mn),
            max_diamond := (max_diamond D)(mn \<mapsto> mx),
            diamond_index := (diamond_index D)(mx \<mapsto> index)\<rparr>"
proof -
  from assms have f: "find (extends_chain P) (candidates P a b) = Some (mn, mx)"
    and D': "D' = D\<lparr>min_diamond := (min_diamond D)(mx \<mapsto> mn),
            max_diamond := (max_diamond D)(mn \<mapsto> mx),
            diamond_index := (diamond_index D)(mx \<mapsto> index)\<rparr>"
    by (simp_all add: extend_step_Some_iff)
  from f show "extends_chain P (mn, mx)" by (auto simp: find_Some_iff)
  from f have "(mn, mx) \<in> set (candidates P a b)"
    by (auto simp: find_Some_iff)
  then show "mn \<in> set (lower_covers P a)" "mx \<in> set (upper_covers P b)"
    by (simp_all add: set_candidates)
  from D' show "D' = D\<lparr>min_diamond := (min_diamond D)(mx \<mapsto> mn),
            max_diamond := (max_diamond D)(mn \<mapsto> mx),
            diamond_index := (diamond_index D)(mx \<mapsto> index)\<rparr>" .
qed

text \<open>
  C4. The candidate pairs of a pass are the pairs of a lower cover of the current bottom
  and an upper cover of the current top. The pass extends the chain by the pair
  \<open>(mn, mx)\<close> exactly when \<open>(mn, mx)\<close> is the first candidate, in enumeration order, whose top
  has exactly one lower cover and which is joined by exactly two paths; it records that
  pair in the three dictionaries. The loop is left exactly when no candidate is such a pair.
\<close>

theorem extension_takes_first_valid_pair:
  "set (candidates P min_elmt max_elmt) =
      set (lower_covers P min_elmt) \<times> set (upper_covers P max_elmt) \<and>
   (extend_step P index (D, min_elmt, max_elmt) = None \<longleftrightarrow>
      (\<forall>c \<in> set (candidates P min_elmt max_elmt). \<not> extends_chain P c)) \<and>
   (extend_step P index (D, min_elmt, max_elmt) = Some (D', mn, mx) \<longleftrightarrow>
      (\<exists>i < length (candidates P min_elmt max_elmt).
          candidates P min_elmt max_elmt ! i = (mn, mx) \<and>
          extends_chain P (mn, mx) \<and>
          (\<forall>j < i. \<not> extends_chain P (candidates P min_elmt max_elmt ! j))) \<and>
      D' = D\<lparr>min_diamond := (min_diamond D)(mx \<mapsto> mn),
             max_diamond := (max_diamond D)(mn \<mapsto> mx),
             diamond_index := (diamond_index D)(mx \<mapsto> index)\<rparr>)"
proof (intro conjI)
  show "set (candidates P min_elmt max_elmt) =
      set (lower_covers P min_elmt) \<times> set (upper_covers P max_elmt)"
    by (rule set_candidates)
  show "extend_step P index (D, min_elmt, max_elmt) = None \<longleftrightarrow>
      (\<forall>c \<in> set (candidates P min_elmt max_elmt). \<not> extends_chain P c)"
    by (auto simp: extend_step_None_iff find_None_iff)
  show "extend_step P index (D, min_elmt, max_elmt) = Some (D', mn, mx) \<longleftrightarrow>
      (\<exists>i < length (candidates P min_elmt max_elmt).
          candidates P min_elmt max_elmt ! i = (mn, mx) \<and>
          extends_chain P (mn, mx) \<and>
          (\<forall>j < i. \<not> extends_chain P (candidates P min_elmt max_elmt ! j))) \<and>
      D' = D\<lparr>min_diamond := (min_diamond D)(mx \<mapsto> mn),
             max_diamond := (max_diamond D)(mn \<mapsto> mx),
             diamond_index := (diamond_index D)(mx \<mapsto> index)\<rparr>"
    unfolding extend_step_Some_iff find_Some_iff by auto
qed

lemma forked9_candidates: "candidates forked9 1 4 = [(0, 5), (0, 6), (0, 8)]"
  by (simp add: candidates_def forked9_def lower_covers_of_def upper_covers_of_def)

lemma forked9_no_candidates: "candidates forked9 0 6 = []"
  by (simp add: candidates_def forked9_def lower_covers_of_def upper_covers_of_def)

lemma forked9_extends_chain:
  "\<not> extends_chain forked9 (0, 5)" "extends_chain forked9 (0, 6)"
  "extends_chain forked9 (0, 8)"
  by (simp_all add: extends_chain_def forked9_def lower_covers_of_def upper_covers_of_def
      numeral_eq_Suc)

theorem extension_takes_first_valid_pair_witness:
  "candidates forked9 1 4 = [(0, 5), (0, 6), (0, 8)] \<and>
   \<not> extends_chain forked9 (0, 5) \<and> extends_chain forked9 (0, 6) \<and>
   extends_chain forked9 (0, 8) \<and>
   (\<exists>D'. extend_step forked9 0 (no_dicts, 1, 4) = Some (D', 0, 6)) \<and>
   extend_step forked9 0 (no_dicts, 0, 6) = None"
proof -
  let ?D' = "no_dicts\<lparr>min_diamond := (min_diamond no_dicts)(6 \<mapsto> 0),
             max_diamond := (max_diamond no_dicts)(0 \<mapsto> 6),
             diamond_index := (diamond_index no_dicts)(6 \<mapsto> 0)\<rparr> :: int dicts"
  have first: "\<exists>i < length (candidates forked9 1 4).
          candidates forked9 1 4 ! i = (0, 6) \<and> extends_chain forked9 (0, 6) \<and>
          (\<forall>j < i. \<not> extends_chain forked9 (candidates forked9 1 4 ! j))"
    by (rule exI [of _ 1]) (simp add: forked9_candidates forked9_extends_chain)
  have "extend_step forked9 0 (no_dicts, 1, 4) = Some (?D', 0, 6)"
    using extension_takes_first_valid_pair [of forked9 1 4 0 no_dicts ?D' 0 6] first
    by blast
  moreover have "extend_step forked9 0 (no_dicts, 0, 6) = None"
    using extension_takes_first_valid_pair [of forked9 0 6 0 no_dicts ?D' 0 6]
    by (simp add: forked9_no_candidates)
  ultimately show ?thesis
    by (simp add: forked9_candidates forked9_extends_chain)
qed

subsection \<open>Invariants of the search for double-tailed diamonds\<close>

lemma extend_invariant_aux:
  assumes run: "extend_loop P index s = Some D'"
  shows "(\<forall>s s'. I P index s \<longrightarrow> extend_step P index s = Some s' \<longrightarrow> I P index s') \<longrightarrow>
         I P index s \<longrightarrow>
         (\<exists>s'. I P index s' \<and> extend_step P index s' = None \<and> fst s' = D')"
proof -
  let ?Q = "\<lambda>a D'. case a of ((P, index), s) \<Rightarrow>
      (\<forall>s s'. I P index s \<longrightarrow> extend_step P index s = Some s' \<longrightarrow> I P index s') \<longrightarrow>
         I P index s \<longrightarrow>
         (\<exists>s'. I P index s' \<and> extend_step P index s' = None \<and> fst s' = D')"
  have "?Q ((P, index), s) D'"
  proof (rule extend_loop.raw_induct [where Pa = ?Q, OF _ run], goal_cases)
    case (1 extend' P index s D')
    show ?case
    proof (cases "extend_step P index s")
      case None
      with 1(2) have "D' = fst s" by simp
      with None show ?thesis unfolding prod.case by blast
    next
      case (Some s')
      with 1(2) have run': "extend' P index s' = Some D'" by simp
      have "?Q ((P, index), s') D'" by (rule 1(1) [OF run'])
      then have *: "(\<forall>s s'. I P index s \<longrightarrow> extend_step P index s = Some s' \<longrightarrow> I P index s') \<longrightarrow>
         I P index s' \<longrightarrow>
         (\<exists>s'. I P index s' \<and> extend_step P index s' = None \<and> fst s' = D')"
        by simp
      show ?thesis
        unfolding prod.case using * Some by blast
    qed
  qed
  then show ?thesis by simp
qed

lemma extend_invariant:
  assumes run: "extend_loop P index s = Some D'"
    and init: "I s"
    and step: "\<And>s s'. I s \<Longrightarrow> extend_step P index s = Some s' \<Longrightarrow> I s'"
  shows "\<exists>s'. I s' \<and> extend_step P index s' = None \<and> fst s' = D'"
  using extend_invariant_aux [OF run, of "\<lambda>P index. I"] init step by blast

lemma extend_keys_covered:
  assumes run: "extend_loop P index (D, a, b) = Some D'" and D: "keys_covered P D"
  shows "keys_covered P D'"
proof -
  have "\<exists>s'. keys_covered P (fst s') \<and> extend_step P index s' = None \<and> fst s' = D'"
  proof (rule extend_invariant [OF run])
    show "keys_covered P (fst (D, a, b))" using D by simp
  next
    fix s s' :: "'a dicts \<times> 'a \<times> 'a"
    assume inv: "keys_covered P (fst s)" and st: "extend_step P index s = Some s'"
    obtain D1 a1 b1 where s: "s = (D1, a1, b1)" by (cases s)
    obtain D2 mn mx where s': "s' = (D2, mn, mx)" by (cases s')
    from extend_step_SomeD [OF st [unfolded s s']]
    have "length (lower_covers P mx) = 1"
      and D2: "diamond_index D2 = (diamond_index D1)(mx \<mapsto> index)"
      by (simp_all add: extends_chain_def)
    then have "lower_covers P mx \<noteq> []" by auto
    with inv D2 show "keys_covered P (fst s')"
      by (auto simp: keys_covered_def s s')
  qed
  then show ?thesis by auto
qed

lemma for_diamonds_keys_covered:
  assumes "for_diamonds P ds D = Some D'" and "keys_covered P D"
    and "\<forall>(index, d0, d1, d2, d3) \<in> set ds. lower_covers P d3 \<noteq> []"
  shows "keys_covered P D'"
  using assms
proof (induction P ds D rule: for_diamonds.induct)
  case (1 P D)
  then show ?case by simp
next
  case (2 P index d0 d1 d2 d3 rest D)
  let ?D0 = "D\<lparr>min_diamond := (min_diamond D)(d3 \<mapsto> d0),
                max_diamond := (max_diamond D)(d0 \<mapsto> d3),
                diamond_index := (diamond_index D)(d3 \<mapsto> index)\<rparr>"
  from "2.prems"(1) obtain D1 where
    e: "extend_loop P index (?D0, d0, d3) = Some D1" and r: "for_diamonds P rest D1 = Some D'"
    by (auto split: option.splits)
  from "2.prems"(2,3) have "keys_covered P ?D0"
    by (auto simp: keys_covered_def)
  from extend_keys_covered [OF e this] have "keys_covered P D1" .
  from "2.IH" [OF e r this] "2.prems"(3) show ?case by simp
qed

lemma find_diamonds_keys_covered:
  assumes "find_diamonds P = Some D"
    and "\<forall>(d0, d1, d2, d3) \<in> set (diamonds P). lower_covers P d3 \<noteq> []"
  shows "keys_covered P D"
proof -
  have "\<forall>(index, d0, d1, d2, d3) \<in> set (List.enumerate 0 (diamonds P)). lower_covers P d3 \<noteq> []"
    using assms(2) by (auto simp: enumerate_eq_zip dest!: set_zip_rightD)
  from for_diamonds_keys_covered [OF assms(1) [unfolded find_diamonds_def] _ this]
  show ?thesis by (simp add: keys_covered_def no_dicts_def)
qed

subsection \<open>Invariants of the breadth-first loop\<close>

lemma visit_Inr_upd:
  assumes "visit P D e h = Inr h'"
  shows "\<exists>v. h' = h(e \<mapsto> v)"
  using assms
  by (auto simp: visit_def split: option.splits if_splits prod.splits)

lemma visit_dom: "visit P D e h = Inr h' \<Longrightarrow> dom h' = insert e (dom h)"
  by (auto dest!: visit_Inr_upd)

lemma visit_known:
  assumes ok: "hook_ok P D h e" and v: "visit P D e h = Inr h'" and e: "h e \<noteq> None"
  shows "h' = h"
proof (cases "diamond_index D e")
  case None
  with ok have "h e = Some (order_ideal_cardinality P [e])" by (simp add: hook_ok_def)
  moreover from None v have "h' = h(e \<mapsto> order_ideal_cardinality P [e])"
    by (simp add: visit_def)
  ultimately show ?thesis by (simp add: map_upd_triv)
next
  case (Some i)
  with ok obtain d0 side1 side2 d3 h1 h2 b hb where
    i: "i < length (diamonds P)" and d: "diamonds P ! i = (d0, side1, side2, d3)" and
    h: "h side1 = Some h1" "h side2 = Some h2" "min_diamond D e = Some b" "h b = Some hb"
      "h e = Some (h1 + h2 - hb)"
    by (auto simp: hook_ok_def)
  from Some i d h v have "h' = h(e \<mapsto> h1 + h2 - hb)"
    by (simp add: visit_def)
  with h show ?thesis by (simp add: map_upd_triv)
qed

lemma visit_new:
  assumes v: "visit P D e h = Inr h'" and e: "h e = None"
  shows "hook_ok P D h' e"
proof (cases "diamond_index D e")
  case None
  with v show ?thesis by (auto simp: visit_def hook_ok_def)
next
  case (Some i)
  with v obtain d0 side1 side2 d3 h1 h2 b hb where
    i: "i < length (diamonds P)" and d: "diamonds P ! i = (d0, side1, side2, d3)" and
    h: "h side1 = Some h1" "h side2 = Some h2" "min_diamond D e = Some b" "h b = Some hb" and
    h': "h' = h(e \<mapsto> h1 + h2 - hb)"
    by (auto simp: visit_def split: option.splits if_splits prod.splits)
  from h e have "side1 \<noteq> e" "side2 \<noteq> e" "b \<noteq> e" by auto
  with Some i d h h' show ?thesis by (auto simp: hook_ok_def)
qed

lemma hook_ok_upd_other:
  assumes ok: "hook_ok P D h x" and e: "h e = None"
  shows "hook_ok P D (h(e \<mapsto> v)) x"
proof -
  from ok e have "x \<noteq> e"
    by (cases "diamond_index D x") (auto simp: hook_ok_def)
  show ?thesis
  proof (cases "diamond_index D x")
    case None
    with ok \<open>x \<noteq> e\<close> show ?thesis by (simp add: hook_ok_def)
  next
    case (Some i)
    with ok obtain d0 side1 side2 d3 h1 h2 b hb where
      i: "i < length (diamonds P)" and d: "diamonds P ! i = (d0, side1, side2, d3)" and
      h: "h side1 = Some h1" "h side2 = Some h2" "min_diamond D x = Some b" "h b = Some hb"
        "h x = Some (h1 + h2 - hb)"
      by (auto simp: hook_ok_def)
    from h e have "side1 \<noteq> e" "side2 \<noteq> e" "b \<noteq> e" by auto
    with Some i d h \<open>x \<noteq> e\<close> show ?thesis by (auto simp: hook_ok_def)
  qed
qed

lemma visit_keeps_hook_ok:
  assumes inv: "\<forall>x \<in> dom h. hook_ok P D h x" and v: "visit P D e h = Inr h'"
  shows "\<forall>x \<in> dom h'. hook_ok P D h' x"
proof (cases "h e")
  case None
  from visit_Inr_upd [OF v] obtain w where h': "h' = h(e \<mapsto> w)" by blast
  show ?thesis
  proof
    fix x assume x: "x \<in> dom h'"
    show "hook_ok P D h' x"
    proof (cases "x = e")
      case True
      with visit_new [OF v None] show ?thesis by simp
    next
      case False
      with x h' have "x \<in> dom h" by auto
      with inv have "hook_ok P D h x" by blast
      from hook_ok_upd_other [OF this None] h' show ?thesis by simp
    qed
  qed
next
  case (Some a)
  then have "e \<in> dom h" by auto
  with inv have "hook_ok P D h e" by blast
  from visit_known [OF this v] Some have "h' = h" by simp
  with inv show ?thesis by simp
qed

lemma enqueue_covers_queue:
  "enqueue_covers cs (q, enq) = (q', enq') \<Longrightarrow> set q \<subseteq> set q'"
  by (induction cs "(q, enq)" arbitrary: q enq rule: enqueue_covers.induct)
    (auto split: if_splits)

lemma enqueue_covers_sets:
  "enqueue_covers cs (q, enq) = (q', enq') \<Longrightarrow>
   set q' = set q \<union> (set cs - enq) \<and> enq' = enq \<union> set cs"
  by (induction cs "(q, enq)" arbitrary: q enq rule: enqueue_covers.induct)
    (auto split: if_splits)

lemma bfs_step_SomeD:
  assumes "bfs_step P D e rest enq h = Inr (q', enq', h')"
  shows "visit P D e h = Inr h'"
    and "enqueue_covers (upper_covers P e) (rest, insert e enq) = (q', enq')"
  using assms by (auto simp: bfs_step_def split: sum.splits prod.splits)

lemma bfs_invariant_aux:
  assumes run: "bfs P D s = Some r"
  shows "(\<forall>e rest enq h s'. I P D (e # rest, enq, h) \<longrightarrow>
            bfs_step P D e rest enq h = Inr s' \<longrightarrow> I P D s') \<longrightarrow>
         I P D s \<longrightarrow> (\<forall>hf. r = Inr hf \<longrightarrow> (\<exists>enq. I P D ([], enq, hf)))"
proof -
  let ?Q = "\<lambda>a r. case a of ((P, D), s) \<Rightarrow>
      (\<forall>e rest enq h s'. I P D (e # rest, enq, h) \<longrightarrow>
            bfs_step P D e rest enq h = Inr s' \<longrightarrow> I P D s') \<longrightarrow>
         I P D s \<longrightarrow> (\<forall>hf. r = Inr hf \<longrightarrow> (\<exists>enq. I P D ([], enq, hf)))"
  have "?Q ((P, D), s) r"
  proof (rule bfs.raw_induct [where Pa = ?Q, OF _ run], goal_cases)
    case (1 bfs' P D s r)
    show ?case
    proof (cases s)
      case (fields q enq h)
      show ?thesis
      proof (cases q)
        case Nil
        with fields 1(2) show ?thesis by auto
      next
        case (Cons e rest)
        show ?thesis
        proof (cases "bfs_step P D e rest enq h")
          case (Inl ex)
          with fields Cons 1(2) show ?thesis by auto
        next
          case (Inr s')
          with fields Cons 1(2) have run': "bfs' P D s' = Some r" by simp
          have "?Q ((P, D), s') r" by (rule 1(1) [OF run'])
          then have *: "(\<forall>e rest enq h s'. I P D (e # rest, enq, h) \<longrightarrow>
              bfs_step P D e rest enq h = Inr s' \<longrightarrow> I P D s') \<longrightarrow>
              I P D s' \<longrightarrow> (\<forall>hf. r = Inr hf \<longrightarrow> (\<exists>enq. I P D ([], enq, hf)))"
            by simp
          show ?thesis
            unfolding prod.case fields Cons using * Inr by blast
        qed
      qed
    qed
  qed
  then show ?thesis by simp
qed

lemma bfs_invariant:
  assumes run: "bfs P D s = Some (Inr hf)"
    and init: "I s"
    and step: "\<And>e rest enq h s'. I (e # rest, enq, h) \<Longrightarrow>
                 bfs_step P D e rest enq h = Inr s' \<Longrightarrow> I s'"
  shows "\<exists>enq. I ([], enq, hf)"
  using bfs_invariant_aux [OF run, of "\<lambda>P D. I"] init step by blast

lemma bfs_hook_ok:
  assumes run: "bfs P D (q, enq, Map.empty) = Some (Inr hf)"
  shows "\<forall>x \<in> dom hf. hook_ok P D hf x"
proof -
  let ?I = "\<lambda>s :: 'a list \<times> 'a set \<times> ('a \<rightharpoonup> int).
      \<forall>x \<in> dom (snd (snd s)). hook_ok P D (snd (snd s)) x"
  have "\<exists>enq'. ?I ([], enq', hf)"
  proof (rule bfs_invariant [OF run])
    show "?I (q, enq, Map.empty)" by simp
  next
    fix e rest enq h s'
    assume inv: "?I (e # rest, enq, h)" and st: "bfs_step P D e rest enq h = Inr s'"
    obtain q' enq' h' where s': "s' = (q', enq', h')" by (cases s')
    from bfs_step_SomeD(1) [OF st [unfolded s']] inv
    show "?I s'" unfolding s' by (simp add: visit_keeps_hook_ok)
  qed
  then show ?thesis by simp
qed

lemma bfs_visits_queue:
  assumes run: "bfs P D (q, enq, h) = Some (Inr hf)"
  shows "set q \<union> dom h \<subseteq> dom hf"
proof -
  let ?I = "\<lambda>s :: 'a list \<times> 'a set \<times> ('a \<rightharpoonup> int).
      set q \<union> dom h \<subseteq> set (fst s) \<union> dom (snd (snd s))"
  have "\<exists>enq'. ?I ([], enq', hf)"
  proof (rule bfs_invariant [OF run])
    show "?I (q, enq, h)" by simp
  next
    fix e rest enq h1 s'
    assume inv: "?I (e # rest, enq, h1)" and st: "bfs_step P D e rest enq h1 = Inr s'"
    obtain q' enq' h' where s': "s' = (q', enq', h')" by (cases s')
    note st' = bfs_step_SomeD [OF st [unfolded s']]
    have "dom h' = insert e (dom h1)" by (rule visit_dom [OF st'(1)])
    moreover have "set rest \<subseteq> set q'" by (rule enqueue_covers_queue [OF st'(2)])
    ultimately have "dom h' = insert e (dom h1)" and "set rest \<subseteq> set q'" by simp_all
    with inv show "?I s'" unfolding s' by auto
  qed
  then show ?thesis by simp
qed

lemma bfs_closed:
  assumes run: "bfs P D (q, {}, Map.empty) = Some (Inr hf)"
  shows "set q \<subseteq> dom hf \<and> (\<forall>x \<in> dom hf. set (upper_covers P x) \<subseteq> dom hf)"
proof -
  let ?I = "\<lambda>s :: 'a list \<times> 'a set \<times> ('a \<rightharpoonup> int).
      (case s of (q1, enq, h) \<Rightarrow>
         set q \<subseteq> dom h \<union> set q1 \<and> enq \<subseteq> dom h \<union> set q1 \<and>
         (\<forall>x \<in> dom h. set (upper_covers P x) \<subseteq> dom h \<union> set q1))"
  have "\<exists>enq'. ?I ([], enq', hf)"
  proof (rule bfs_invariant [OF run])
    show "?I (q, {}, Map.empty)" by simp
  next
    fix e rest enq h s'
    assume inv: "?I (e # rest, enq, h)" and st: "bfs_step P D e rest enq h = Inr s'"
    obtain q' enq' h' where s': "s' = (q', enq', h')" by (cases s')
    note st' = bfs_step_SomeD [OF st [unfolded s']]
    have dom: "dom h' = insert e (dom h)" by (rule visit_dom [OF st'(1)])
    from enqueue_covers_sets [OF st'(2)]
    have q': "set q' = set rest \<union> (set (upper_covers P e) - insert e enq)"
      and enq': "enq' = insert e enq \<union> set (upper_covers P e)"
      by simp_all
    from inv have i1: "set q \<subseteq> dom h \<union> set (e # rest)"
      and i2: "enq \<subseteq> dom h \<union> set (e # rest)"
      and i3: "\<forall>x \<in> dom h. set (upper_covers P x) \<subseteq> dom h \<union> set (e # rest)"
      by simp_all
    have "set q \<subseteq> dom h' \<union> set q'" using i1 dom q' by auto
    moreover have "enq' \<subseteq> dom h' \<union> set q'" using i2 dom q' enq' by auto
    moreover have "\<forall>x \<in> dom h'. set (upper_covers P x) \<subseteq> dom h' \<union> set q'"
    proof
      fix x assume "x \<in> dom h'"
      with dom have "x = e \<or> x \<in> dom h" by auto
      then show "set (upper_covers P x) \<subseteq> dom h' \<union> set q'"
      proof
        assume "x = e"
        with i2 dom q' show ?thesis by auto
      next
        assume "x \<in> dom h"
        with i3 dom q' show ?thesis by auto
      qed
    qed
    ultimately show "?I s'" unfolding s' by simp
  qed
  then show ?thesis by simp
qed

lemma bfs_keys_reached:
  assumes run: "bfs P D (q, enq, h) = Some (Inr hf)"
    and sub: "covers P \<subseteq> U \<times> U" and init: "set q \<union> dom h \<subseteq> U"
  shows "dom hf \<subseteq> U"
proof -
  let ?I = "\<lambda>s :: 'a list \<times> 'a set \<times> ('a \<rightharpoonup> int). set (fst s) \<union> dom (snd (snd s)) \<subseteq> U"
  have "\<exists>enq'. ?I ([], enq', hf)"
  proof (rule bfs_invariant [OF run])
    show "?I (q, enq, h)" using init by simp
  next
    fix e rest enq h s'
    assume inv: "?I (e # rest, enq, h)" and st: "bfs_step P D e rest enq h = Inr s'"
    obtain q' enq' h' where s': "s' = (q', enq', h')" by (cases s')
    note st' = bfs_step_SomeD [OF st [unfolded s']]
    have dom: "dom h' = insert e (dom h)" by (rule visit_dom [OF st'(1)])
    from enqueue_covers_sets [OF st'(2)]
    have q': "set q' = set rest \<union> (set (upper_covers P e) - insert e enq)" by simp
    have "set (upper_covers P e) \<subseteq> U" using sub by (auto simp: covers_def)
    with inv dom q' show "?I s'" unfolding s' by auto
  qed
  then show ?thesis by simp
qed

lemma hooks_run:
  assumes "DCompletePoset_hooks P = Some (Inr h)" and "find_diamonds P = Some D"
  shows "bfs P D (minimal_elements P, {}, Map.empty) = Some (Inr h)"
  using assms by (simp add: DCompletePoset_hooks_def compute_hooks_def)

subsection \<open>The hooks that are returned\<close>

text \<open>
  When the body of \<^verbatim>\<open>_hooks\<close> returns, the keys of the dictionary are exactly the elements
  of the poset.
\<close>

lemma returned_hooks_total:
  assumes agree: "cover_queries_agree P" and run: "DCompletePoset_hooks P = Some (Inr h)"
  shows "dom h = set (elements P)"
proof
  from run obtain D where D: "find_diamonds P = Some D"
    by (auto simp: DCompletePoset_hooks_def split: option.splits)
  note bfs = hooks_run [OF run D]
  from agree have sub: "covers P \<subseteq> set (elements P) \<times> set (elements P)"
    and acy: "acyclic (covers P)"
    and low: "\<And>x y. x \<in> set (lower_covers P y) \<Longrightarrow> y \<in> set (upper_covers P x)"
    and mins: "set (minimal_elements P) = {e \<in> set (elements P). lower_covers P e = []}"
    by (auto simp: cover_queries_agree_def)
  from mins have "set (minimal_elements P) \<union> dom (Map.empty :: 'a \<rightharpoonup> int) \<subseteq> set (elements P)"
    by auto
  from bfs_keys_reached [OF bfs sub this] show "dom h \<subseteq> set (elements P)" .
  from bfs_closed [OF bfs] have start: "set (minimal_elements P) \<subseteq> dom h"
    and closed: "\<And>x y. x \<in> dom h \<Longrightarrow> y \<in> set (upper_covers P x) \<Longrightarrow> y \<in> dom h"
    by auto
  have "finite (covers P)"
    by (rule finite_subset [OF sub]) simp
  then have "wf (covers P)" using acy by (rule finite_acyclic_wf)
  then have "e \<in> set (elements P) \<longrightarrow> e \<in> dom h" for e
  proof (induction e rule: wf_induct_rule)
    case (less e)
    show ?case
    proof
      assume e: "e \<in> set (elements P)"
      show "e \<in> dom h"
      proof (cases "lower_covers P e")
        case Nil
        with e mins start show ?thesis by auto
      next
        case (Cons x xs)
        then have "x \<in> set (lower_covers P e)" by simp
        from low [OF this] have up: "e \<in> set (upper_covers P x)" .
        then have c: "(x, e) \<in> covers P" by (simp add: covers_def)
        with sub have "x \<in> set (elements P)" by auto
        with less [OF c] have "x \<in> dom h" by simp
        from closed [OF this up] show ?thesis .
      qed
    qed
  qed
  then show "set (elements P) \<subseteq> dom h" by auto
qed

lemma element_has_hook:
  assumes run: "DCompletePoset_hooks P = Some (Inr h)"
    and elem: "h e \<noteq> None \<or> cover_queries_agree P \<and> e \<in> set (elements P)"
  shows "e \<in> dom h"
  using elem returned_hooks_total [OF _ run] by auto

text \<open>
  C1. When the body of \<^verbatim>\<open>_hooks\<close> returns the dictionary \<open>h\<close>, every element \<open>e\<close> that is
  a key of \<^verbatim>\<open>diamond_index\<close> (the top of a diamond chain) satisfies the recurrence: with
  \<open>side1\<close> and \<open>side2\<close> the sides of the diamond \<^verbatim>\<open>diamonds[diamond_index[e]]\<close> and
  \<open>b = min_diamond[e]\<close> the bottom of the chain, these three are keys of \<open>h\<close> and
  \<open>h[e] = h[side1] + h[side2] - h[b]\<close>. Here \<open>e\<close> is any key of \<open>h\<close>, or any element of
  a poset whose cover queries agree (every element is a key of \<open>h\<close> then).
\<close>

theorem chain_top_hook_recurrence:
  assumes run: "DCompletePoset_hooks P = Some (Inr h)"
    and dicts: "find_diamonds P = Some D"
    and top: "diamond_index D e = Some i"
    and elem: "h e \<noteq> None \<or> cover_queries_agree P \<and> e \<in> set (elements P)"
  shows "i < length (diamonds P) \<and>
    (\<exists>d0 side1 side2 d3 b h1 h2 hb.
       diamonds P ! i = (d0, side1, side2, d3) \<and> min_diamond D e = Some b \<and>
       h side1 = Some h1 \<and> h side2 = Some h2 \<and> h b = Some hb \<and>
       h e = Some (h1 + h2 - hb))"
proof -
  have "e \<in> dom h" by (rule element_has_hook [OF run elem])
  with bfs_hook_ok [OF hooks_run [OF run dicts]] have "hook_ok P D h e" by blast
  with top show ?thesis unfolding hook_ok_def by blast
qed

text \<open>
  C2. When the body of \<^verbatim>\<open>_hooks\<close> returns the dictionary \<open>h\<close>: every element \<open>e\<close> that is
  no key of \<^verbatim>\<open>diamond_index\<close> (not the top of a diamond chain) has
  \<open>h[e] = order_ideal_cardinality([e])\<close>, for \<open>e\<close> any key of \<open>h\<close> or any element of a poset
  whose cover queries agree; and, for a poset whose minimal elements have no lower cover
  and an order ideal of one element and whose diamond tops have a lower cover, every
  minimal element \<open>e\<close> is a key of \<open>h\<close>, is not the top of a diamond chain, and has
  \<open>h[e] = order_ideal_cardinality([e]) = 1\<close>.
\<close>

theorem other_hook_is_ideal_cardinality:
  assumes run: "DCompletePoset_hooks P = Some (Inr h)"
    and dicts: "find_diamonds P = Some D"
  shows "((h e \<noteq> None \<or> cover_queries_agree P \<and> e \<in> set (elements P)) \<and>
          diamond_index D e = None \<longrightarrow>
            h e = Some (order_ideal_cardinality P [e])) \<and>
         (minimal_queries_agree P \<and> e \<in> set (minimal_elements P) \<longrightarrow>
            diamond_index D e = None \<and>
            h e = Some (order_ideal_cardinality P [e]) \<and> h e = Some 1)"
proof (intro conjI impI)
  note ok = bfs_hook_ok [OF hooks_run [OF run dicts]]
  {
    assume "(h e \<noteq> None \<or> cover_queries_agree P \<and> e \<in> set (elements P)) \<and>
      diamond_index D e = None"
    then have elem: "h e \<noteq> None \<or> cover_queries_agree P \<and> e \<in> set (elements P)"
      and none: "diamond_index D e = None"
      by simp_all
    have "e \<in> dom h" by (rule element_has_hook [OF run elem])
    with ok have "hook_ok P D h e" by blast
    with none show "h e = Some (order_ideal_cardinality P [e])"
      by (simp add: hook_ok_def)
  }
  assume "minimal_queries_agree P \<and> e \<in> set (minimal_elements P)"
  then have agree: "minimal_queries_agree P" and e: "e \<in> set (minimal_elements P)"
    by simp_all
  from agree e have low: "lower_covers P e = []" and one: "order_ideal_cardinality P [e] = 1"
    by (auto simp: minimal_queries_agree_def)
  from agree have "\<forall>(d0, d1, d2, d3) \<in> set (diamonds P). lower_covers P d3 \<noteq> []"
    by (simp add: minimal_queries_agree_def)
  from find_diamonds_keys_covered [OF dicts this] low
  show none: "diamond_index D e = None"
    by (auto simp: keys_covered_def)
  from bfs_visits_queue [OF hooks_run [OF run dicts]] e have "e \<in> dom h" by auto
  with ok have "hook_ok P D h e" by blast
  with none show "h e = Some (order_ideal_cardinality P [e])"
    by (simp add: hook_ok_def)
  with one show "h e = Some 1" by simp
qed

subsection \<open>The double-tailed diamond of the docstring\<close>

lemma dtd_find_diamonds:
  "find_diamonds double_tailed_diamond =
     Some \<lparr>min_diamond = [5 \<mapsto> 2, 6 \<mapsto> 1], max_diamond = [2 \<mapsto> 5, 1 \<mapsto> 6],
           diamond_index = [5 \<mapsto> 0, 6 \<mapsto> 0]\<rparr>"
  by (simp add: find_diamonds_def double_tailed_diamond_def poset_eval extend_loop.simps
      extend_step_def candidates_def no_dicts_def)

lemma dtd_hooks:
  "DCompletePoset_hooks double_tailed_diamond =
     Some (Inr [1 \<mapsto> 1, 2 \<mapsto> 2, 3 \<mapsto> 3, 4 \<mapsto> 3, 5 \<mapsto> 4, 6 \<mapsto> 5])"
  unfolding DCompletePoset_hooks_def dtd_find_diamonds
  by (simp add: compute_hooks_def double_tailed_diamond_def poset_eval bfs.simps bfs_step_def
      visit_def)

lemma dtd_agree: "minimal_queries_agree double_tailed_diamond"
  by (simp add: minimal_queries_agree_def double_tailed_diamond_def poset_eval)

lemma dtd_cover_queries_agree: "cover_queries_agree double_tailed_diamond"
  unfolding double_tailed_diamond_def
proof (rule hasse_poset_cover_queries_agree)
  show "set [(1, 2), (2, 3), (2, 4), (3, 5), (4, 5), (5, 6 :: int)]
      \<subseteq> set [1, 2, 3, 4, 5, 6] \<times> set [1, 2, 3, 4, 5, 6]"
    by simp
  show "acyclic (set [(1, 2), (2, 3), (2, 4), (3, 5), (4, 5), (5, 6 :: int)])"
    by (rule acyclicI_order [where f = uminus]) auto
qed

theorem chain_top_hook_recurrence_witness:
  "\<exists>h D. DCompletePoset_hooks double_tailed_diamond = Some (Inr h) \<and>
     find_diamonds double_tailed_diamond = Some D \<and>
     diamond_index D 6 = Some 0 \<and> h 6 \<noteq> None \<and>
     cover_queries_agree double_tailed_diamond \<and> 6 \<in> set (elements double_tailed_diamond) \<and>
     diamonds double_tailed_diamond ! 0 = (2, 3, 4, 5) \<and> min_diamond D 6 = Some 1 \<and>
     h 3 = Some 3 \<and> h 4 = Some 3 \<and> h 1 = Some 1 \<and> h 6 = Some (3 + 3 - 1)"
proof -
  let ?h = "[1 \<mapsto> 1, 2 \<mapsto> 2, 3 \<mapsto> 3, 4 \<mapsto> 3, 5 \<mapsto> 4, 6 \<mapsto> 5] :: int \<rightharpoonup> int"
  let ?D = "\<lparr>min_diamond = [5 \<mapsto> 2, 6 \<mapsto> 1], max_diamond = [2 \<mapsto> 5, 1 \<mapsto> 6],
           diamond_index = [5 \<mapsto> 0, 6 \<mapsto> 0]\<rparr> :: int dicts"
  have top: "diamond_index ?D 6 = Some 0" by simp
  have el: "6 \<in> set (elements double_tailed_diamond)"
    by (simp add: double_tailed_diamond_def)
  have elem: "?h 6 \<noteq> None \<or>
      cover_queries_agree double_tailed_diamond \<and> 6 \<in> set (elements double_tailed_diamond)"
    using dtd_cover_queries_agree el by simp
  have d: "diamonds double_tailed_diamond ! 0 = (2, 3, 4, 5)"
    by (simp add: double_tailed_diamond_def poset_eval)
  from chain_top_hook_recurrence [OF dtd_hooks dtd_find_diamonds top elem]
  obtain d0 side1 side2 d3 b h1 h2 hb where
    r: "diamonds double_tailed_diamond ! 0 = (d0, side1, side2, d3)"
      "min_diamond ?D 6 = Some b" "?h side1 = Some h1" "?h side2 = Some h2"
      "?h b = Some hb" "?h 6 = Some (h1 + h2 - hb)"
    by blast
  from r(1) d have s: "side1 = 3" "side2 = 4" by simp_all
  from r(2) have b: "b = 1" by simp
  from r(3,4,5) have "h1 = 3" "h2 = 3" "hb = 1" unfolding s b by simp_all
  with r(6) have "?h 6 = Some (3 + 3 - 1)" by simp
  then have "DCompletePoset_hooks double_tailed_diamond = Some (Inr ?h) \<and>
     find_diamonds double_tailed_diamond = Some ?D \<and>
     diamond_index ?D 6 = Some 0 \<and> ?h 6 \<noteq> None \<and>
     cover_queries_agree double_tailed_diamond \<and> 6 \<in> set (elements double_tailed_diamond) \<and>
     diamonds double_tailed_diamond ! 0 = (2, 3, 4, 5) \<and> min_diamond ?D 6 = Some 1 \<and>
     ?h 3 = Some 3 \<and> ?h 4 = Some 3 \<and> ?h 1 = Some 1 \<and> ?h 6 = Some (3 + 3 - 1)"
    using dtd_hooks dtd_find_diamonds d dtd_cover_queries_agree el by simp
  then show ?thesis by blast
qed

theorem other_hook_is_ideal_cardinality_witness:
  "DCompletePoset_hooks double_tailed_diamond =
     Some (Inr [1 \<mapsto> 1, 2 \<mapsto> 2, 3 \<mapsto> 3, 4 \<mapsto> 3, 5 \<mapsto> 4, 6 \<mapsto> 5]) \<and>
   minimal_queries_agree double_tailed_diamond \<and>
   minimal_elements double_tailed_diamond = [1] \<and>
   [1 \<mapsto> 1, 2 \<mapsto> 2, 3 \<mapsto> 3, 4 \<mapsto> 3, 5 \<mapsto> 4, 6 \<mapsto> 5] (1::int) =
     Some (order_ideal_cardinality double_tailed_diamond [1]) \<and>
   order_ideal_cardinality double_tailed_diamond [1] = 1 \<and>
   [1 \<mapsto> 1, 2 \<mapsto> 2, 3 \<mapsto> 3, 4 \<mapsto> 3, 5 \<mapsto> 4, 6 \<mapsto> 5] (3::int) =
     Some (order_ideal_cardinality double_tailed_diamond [3]) \<and>
   order_ideal_cardinality double_tailed_diamond [3] = 3"
proof -
  let ?h = "[1 \<mapsto> 1, 2 \<mapsto> 2, 3 \<mapsto> 3, 4 \<mapsto> 3, 5 \<mapsto> 4, 6 \<mapsto> 5] :: int \<rightharpoonup> int"
  let ?D = "\<lparr>min_diamond = [5 \<mapsto> 2, 6 \<mapsto> 1], max_diamond = [2 \<mapsto> 5, 1 \<mapsto> 6],
           diamond_index = [5 \<mapsto> 0, 6 \<mapsto> 0]\<rparr> :: int dicts"
  have m: "minimal_elements double_tailed_diamond = [1]"
    by (simp add: double_tailed_diamond_def poset_eval)
  have "minimal_queries_agree double_tailed_diamond \<and>
      (1::int) \<in> set (minimal_elements double_tailed_diamond)"
    by (simp add: dtd_agree m)
  with other_hook_is_ideal_cardinality [OF dtd_hooks dtd_find_diamonds, of 1]
  have one: "?h 1 = Some (order_ideal_cardinality double_tailed_diamond [1])" "?h 1 = Some 1"
    by blast+
  have "(?h 3 \<noteq> None \<or>
      cover_queries_agree double_tailed_diamond \<and> 3 \<in> set (elements double_tailed_diamond)) \<and>
      diamond_index ?D 3 = None"
    by simp
  with other_hook_is_ideal_cardinality [OF dtd_hooks dtd_find_diamonds, of 3]
  have three: "?h 3 = Some (order_ideal_cardinality double_tailed_diamond [3])"
    by blast
  from one have "order_ideal_cardinality double_tailed_diamond [1] = 1" by simp
  moreover from three have "order_ideal_cardinality double_tailed_diamond [3] = 3" by simp
  ultimately show ?thesis using dtd_hooks dtd_agree m one(1) three by (intro conjI)
qed

subsection \<open>Termination\<close>

text \<open>The elements strictly above \<open>x\<close> become fewer along every cover relation.\<close>

lemma above_finite:
  assumes "covers P \<subseteq> set (elements P) \<times> set (elements P)"
  shows "{y. (x, y) \<in> (covers P)\<^sup>+} \<subseteq> set (elements P)"
proof
  fix y assume "y \<in> {y. (x, y) \<in> (covers P)\<^sup>+}"
  then have "(x, y) \<in> (covers P)\<^sup>+" by simp
  then have "y \<in> Range (covers P)" by (induction rule: trancl.induct) auto
  with assms show "y \<in> set (elements P)" by auto
qed

lemma above_decreases:
  assumes sub: "covers P \<subseteq> set (elements P) \<times> set (elements P)"
    and acy: "acyclic (covers P)" and xy: "(x, y) \<in> covers P"
  shows "card {z. (y, z) \<in> (covers P)\<^sup>+} < card {z. (x, z) \<in> (covers P)\<^sup>+}"
proof (rule psubset_card_mono)
  show "finite {z. (x, z) \<in> (covers P)\<^sup>+}"
    using above_finite [OF sub] by (rule finite_subset) simp
  have "y \<in> {z. (x, z) \<in> (covers P)\<^sup>+}" using xy by auto
  moreover have "y \<notin> {z. (y, z) \<in> (covers P)\<^sup>+}"
    using acy by (auto simp: acyclic_def)
  moreover have "{z. (y, z) \<in> (covers P)\<^sup>+} \<subseteq> {z. (x, z) \<in> (covers P)\<^sup>+}"
    using xy by (auto intro: trancl_into_trancl2)
  ultimately show "{z. (y, z) \<in> (covers P)\<^sup>+} \<subset> {z. (x, z) \<in> (covers P)\<^sup>+}"
    by blast
qed

lemma above_card_le:
  assumes "covers P \<subseteq> set (elements P) \<times> set (elements P)"
  shows "card {z. (x, z) \<in> (covers P)\<^sup>+} \<le> card (set (elements P))"
  by (rule card_mono [OF _ above_finite [OF assms]]) simp

lemma extend_loop_terminates_above:
  assumes sub: "covers P \<subseteq> set (elements P) \<times> set (elements P)"
    and acy: "acyclic (covers P)"
  shows "\<exists>k s'. k \<le> card {z. (snd (snd s), z) \<in> (covers P)\<^sup>+} \<and>
           extend_iter P index k s = Some s' \<and> extend_step P index s' = None \<and>
           extend_loop P index s = Some (fst s')"
proof (induction "card {z. (snd (snd s), z) \<in> (covers P)\<^sup>+}" arbitrary: s rule: less_induct)
  case less
  show ?case
  proof (cases "extend_step P index s")
    case None
    then have "extend_iter P index 0 s = Some s" "extend_loop P index s = Some (fst s)"
      by (simp_all add: extend_loop.simps)
    with None show ?thesis by blast
  next
    case (Some s1)
    obtain D a b where s: "s = (D, a, b)" by (cases s)
    obtain D1 mn mx where s1: "s1 = (D1, mn, mx)" by (cases s1)
    from extend_step_SomeD(3) [OF Some [unfolded s s1]] have "(b, mx) \<in> covers P"
      by (simp add: covers_iff)
    from above_decreases [OF sub acy this]
    have lt: "card {z. (snd (snd s1), z) \<in> (covers P)\<^sup>+}
        < card {z. (snd (snd s), z) \<in> (covers P)\<^sup>+}"
      by (simp add: s s1)
    from less [OF lt] obtain k s' where
      k: "k \<le> card {z. (snd (snd s1), z) \<in> (covers P)\<^sup>+}" and
      it: "extend_iter P index k s1 = Some s'" and stop: "extend_step P index s' = None" and
      run: "extend_loop P index s1 = Some (fst s')"
      by blast
    from k lt have "Suc k \<le> card {z. (snd (snd s), z) \<in> (covers P)\<^sup>+}" by simp
    moreover from it Some have "extend_iter P index (Suc k) s = Some s'" by simp
    moreover from run Some have "extend_loop P index s = Some (fst s')"
      by (subst extend_loop.simps) simp
    ultimately show ?thesis using stop by blast
  qed
qed

lemma extend_loop_terminates:
  assumes sub: "covers P \<subseteq> set (elements P) \<times> set (elements P)"
    and acy: "acyclic (covers P)"
  shows "\<exists>k s'. k \<le> card (set (elements P)) \<and>
           extend_iter P index k s = Some s' \<and> extend_step P index s' = None \<and>
           extend_loop P index s = Some (fst s')"
proof -
  from extend_loop_terminates_above [OF sub acy, of s index] obtain k s' where
    "k \<le> card {z. (snd (snd s), z) \<in> (covers P)\<^sup>+}"
    "extend_iter P index k s = Some s'" "extend_step P index s' = None"
    "extend_loop P index s = Some (fst s')"
    by blast
  moreover from this(1) above_card_le [OF sub, of "snd (snd s)"]
  have "k \<le> card (set (elements P))" by simp
  ultimately show ?thesis by blast
qed

lemma for_diamonds_terminates:
  assumes sub: "covers P \<subseteq> set (elements P) \<times> set (elements P)"
    and acy: "acyclic (covers P)"
  shows "\<exists>D'. for_diamonds P ds D = Some D'"
proof (induction ds arbitrary: D)
  case Nil
  show ?case by simp
next
  case (Cons d ds)
  obtain index d0 d1 d2 d3 where d: "d = (index, d0, d1, d2, d3)" by (cases d)
  let ?D0 = "D\<lparr>min_diamond := (min_diamond D)(d3 \<mapsto> d0),
                max_diamond := (max_diamond D)(d0 \<mapsto> d3),
                diamond_index := (diamond_index D)(d3 \<mapsto> index)\<rparr>"
  from extend_loop_terminates [OF sub acy, of index "(?D0, d0, d3)"]
  obtain D1 where "extend_loop P index (?D0, d0, d3) = Some D1" by blast
  moreover from Cons [of D1] obtain D' where "for_diamonds P ds D1 = Some D'" by blast
  ultimately show ?case by (simp add: d)
qed

lemma enqueue_covers_measure:
  assumes "enqueue_covers cs (q, enq) = (q', enq')" and "set cs \<subseteq> U" and "finite U"
  shows "length q' + card (U - enq') \<le> length q + card (U - enq)"
  using assms
proof (induction cs arbitrary: q enq)
  case Nil
  then show ?case by simp
next
  case (Cons c cs)
  show ?case
  proof (cases "c \<in> enq")
    case True
    with Cons.prems have "enqueue_covers cs (q, enq) = (q', enq')" by simp
    from Cons.IH [OF this] Cons.prems show ?thesis by simp
  next
    case False
    with Cons.prems have "enqueue_covers cs (q @ [c], insert c enq) = (q', enq')" by simp
    from Cons.IH [OF this] Cons.prems
    have le: "length q' + card (U - enq') \<le> length (q @ [c]) + card (U - insert c enq)"
      by simp
    from False Cons.prems have "c \<in> U - enq" by simp
    moreover from Cons.prems have "finite (U - enq)" by simp
    ultimately have "card (U - insert c enq) < card (U - enq)"
      by (intro psubset_card_mono) auto
    with le show ?thesis by simp
  qed
qed

lemma bfs_terminates:
  assumes sub: "covers P \<subseteq> set (elements P) \<times> set (elements P)"
  shows "\<exists>r. bfs P D (q, enq, h) = Some r"
proof (induction "length q + card (set (elements P) - enq)" arbitrary: q enq h
    rule: less_induct)
  case less
  show ?case
  proof (cases q)
    case Nil
    then show ?thesis by (simp add: bfs.simps)
  next
    case (Cons e rest)
    show ?thesis
    proof (cases "bfs_step P D e rest enq h")
      case (Inl ex)
      with Cons show ?thesis by (simp add: bfs.simps)
    next
      case (Inr s')
      obtain q' enq' h' where s': "s' = (q', enq', h')" by (cases s')
      from bfs_step_SomeD(2) [OF Inr [unfolded s']]
      have enq: "enqueue_covers (upper_covers P e) (rest, insert e enq) = (q', enq')" .
      have "set (upper_covers P e) \<subseteq> set (elements P)"
        using sub by (auto simp: covers_def)
      from enqueue_covers_measure [OF enq this]
      have "length q' + card (set (elements P) - enq')
          \<le> length rest + card (set (elements P) - insert e enq)"
        by simp
      also have "card (set (elements P) - insert e enq) \<le> card (set (elements P) - enq)"
        by (rule card_mono) auto
      finally have "length q' + card (set (elements P) - enq')
          < length q + card (set (elements P) - enq)"
        using Cons by simp
      from less [OF this, of h'] obtain r where "bfs P D (q', enq', h') = Some r" by blast
      with Cons Inr s' show ?thesis by (subst bfs.simps) simp
    qed
  qed
qed

text \<open>
  C5. For a poset whose covering relation is acyclic and lies within its finitely many
  elements: the \<^verbatim>\<open>while True\<close> loop, started in any state \<open>s\<close>, is left after \<open>k\<close> passes
  for some \<open>k\<close> that is at most the number of elements of the poset; the search for the
  diamonds ends; and the body of \<^verbatim>\<open>_hooks\<close> ends (by returning or by raising).
\<close>

theorem hook_computation_terminates:
  assumes "covers P \<subseteq> set (elements P) \<times> set (elements P)" and "acyclic (covers P)"
  shows "(\<exists>k s'. k \<le> card (set (elements P)) \<and>
            extend_iter P index k s = Some s' \<and> extend_step P index s' = None \<and>
            extend_loop P index s = Some (fst s')) \<and>
         (\<exists>D. find_diamonds P = Some D) \<and>
         (\<exists>r. DCompletePoset_hooks P = Some r)"
proof (intro conjI)
  show "\<exists>k s'. k \<le> card (set (elements P)) \<and>
            extend_iter P index k s = Some s' \<and> extend_step P index s' = None \<and>
            extend_loop P index s = Some (fst s')"
    by (rule extend_loop_terminates [OF assms])
  from for_diamonds_terminates [OF assms] obtain D where D: "find_diamonds P = Some D"
    unfolding find_diamonds_def by blast
  then show "\<exists>D. find_diamonds P = Some D" ..
  from bfs_terminates [OF assms(1)] D show "\<exists>r. DCompletePoset_hooks P = Some r"
    by (simp add: DCompletePoset_hooks_def compute_hooks_def)
qed

lemma dtd_covers:
  "covers double_tailed_diamond \<subseteq>
     set (elements double_tailed_diamond) \<times> set (elements double_tailed_diamond)"
  "acyclic (covers double_tailed_diamond)"
proof -
  show "covers double_tailed_diamond \<subseteq>
     set (elements double_tailed_diamond) \<times> set (elements double_tailed_diamond)"
    by (simp add: double_tailed_diamond_def covers_hasse_poset)
  show "acyclic (covers double_tailed_diamond)"
    unfolding double_tailed_diamond_def covers_hasse_poset
    by (rule acyclicI_order [where f = uminus]) auto
qed

theorem hook_computation_terminates_witness:
  "covers double_tailed_diamond \<subseteq>
     set (elements double_tailed_diamond) \<times> set (elements double_tailed_diamond) \<and>
   acyclic (covers double_tailed_diamond) \<and>
   (\<exists>k s'. k \<le> card (set (elements double_tailed_diamond)) \<and>
      extend_iter double_tailed_diamond 0 k (no_dicts, 2, 5) = Some s' \<and>
      extend_step double_tailed_diamond 0 s' = None \<and>
      extend_loop double_tailed_diamond 0 (no_dicts, 2, 5) = Some (fst s')) \<and>
   (\<exists>D. find_diamonds double_tailed_diamond = Some D) \<and>
   (\<exists>r. DCompletePoset_hooks double_tailed_diamond = Some r)"
  using hook_computation_terminates [OF dtd_covers, of 0 "(no_dicts, 2, 5)"] dtd_covers
  by blast

subsection \<open>The single diamond\<close>

lemma diamond4_find_diamonds:
  "find_diamonds diamond4 =
     Some \<lparr>min_diamond = [3 \<mapsto> 0], max_diamond = [0 \<mapsto> 3], diamond_index = [3 \<mapsto> 0]\<rparr>"
  by (simp add: find_diamonds_def diamond4_def common_upper_covers_def upper_covers_of_def
      lower_covers_of_def enumerate_eq_zip extend_loop.simps extend_step_def candidates_def
      no_dicts_def)

text \<open>
  C8. For the poset with the cover relations \<open>0 < 1\<close>, \<open>0 < 2\<close>, \<open>1 < 3\<close>, \<open>2 < 3\<close>, the body of
  \<^verbatim>\<open>_hooks\<close> returns the dictionary \<^verbatim>\<open>{0: 1, 1: 2, 2: 2, 3: 3}\<close>.
\<close>

theorem single_diamond_hooks:
  "DCompletePoset_hooks diamond4 = Some (Inr [0 \<mapsto> 1, 1 \<mapsto> 2, 2 \<mapsto> 2, 3 \<mapsto> 3])"
  unfolding DCompletePoset_hooks_def diamond4_find_diamonds
  by (simp add: compute_hooks_def diamond4_def common_upper_covers_def upper_covers_of_def
      lower_covers_of_def bfs.simps bfs_step_def visit_def numeral_eq_Suc)

subsection \<open>Two posets on which the traversal fails\<close>

text \<open>Both posets of this section are well-formed inputs.\<close>

lemma failing_posets_agree:
  "cover_queries_agree young3222" "cover_queries_agree tailed9"
proof -
  show "cover_queries_agree young3222"
    unfolding young3222_def
  proof (rule hasse_poset_cover_queries_agree)
    show "set [(8, 6), (8, 7), (7, 5), (6, 4), (6, 5), (5, 3), (4, 1), (4, 3), (3, 0), (2, 1),
        (1, 0 :: int)] \<subseteq> set [8, 7, 6, 5, 4, 3, 2, 1, 0] \<times> set [8, 7, 6, 5, 4, 3, 2, 1, 0]"
      by simp
    show "acyclic (set [(8, 6), (8, 7), (7, 5), (6, 4), (6, 5), (5, 3), (4, 1), (4, 3), (3, 0),
        (2, 1), (1, 0 :: int)])"
      by (rule acyclicI_order [where f = "\<lambda>x. x"]) auto
  qed
  show "cover_queries_agree tailed9"
    unfolding tailed9_def
  proof (rule hasse_poset_cover_queries_agree)
    show "set [(0, 2), (1, 4), (2, 3), (3, 4), (3, 5), (4, 6), (5, 6), (6, 7), (7, 8 :: int)]
        \<subseteq> set [0, 1, 2, 3, 4, 5, 6, 7, 8] \<times> set [0, 1, 2, 3, 4, 5, 6, 7, 8]"
      by simp
    show "acyclic (set [(0, 2), (1, 4), (2, 3), (3, 4), (3, 5), (4, 6), (5, 6), (6, 7),
        (7, 8 :: int)])"
      by (rule acyclicI_order [where f = uminus]) auto
  qed
qed

lemma tailed9_find_diamonds:
  "find_diamonds tailed9 =
     Some \<lparr>min_diamond = [6 \<mapsto> 3, 7 \<mapsto> 2, 8 \<mapsto> 0], max_diamond = [3 \<mapsto> 6, 2 \<mapsto> 7, 0 \<mapsto> 8],
           diamond_index = [6 \<mapsto> 0, 7 \<mapsto> 0, 8 \<mapsto> 0]\<rparr>"
  by (simp add: find_diamonds_def tailed9_def poset_eval extend_loop.simps extend_step_def
      candidates_def no_dicts_def)

lemma tailed9_swapped_find_diamonds:
  "find_diamonds tailed9_swapped =
     Some \<lparr>min_diamond = [6 \<mapsto> 3, 7 \<mapsto> 2, 8 \<mapsto> 0], max_diamond = [3 \<mapsto> 6, 2 \<mapsto> 7, 0 \<mapsto> 8],
           diamond_index = [6 \<mapsto> 0, 7 \<mapsto> 0, 8 \<mapsto> 0]\<rparr>"
  by (simp add: find_diamonds_def tailed9_swapped_def poset_eval extend_loop.simps
      extend_step_def candidates_def no_dicts_def)

lemma tailed9_hooks: "DCompletePoset_hooks tailed9 = Some (Inl KeyError)"
  unfolding DCompletePoset_hooks_def tailed9_find_diamonds
  by (simp add: compute_hooks_def tailed9_def poset_eval bfs.simps bfs_step_def visit_def)

lemma tailed9_swapped_hooks: "DCompletePoset_hooks tailed9_swapped = Some (Inl KeyError)"
  unfolding DCompletePoset_hooks_def tailed9_swapped_find_diamonds
  by (simp add: compute_hooks_def tailed9_swapped_def poset_eval bfs.simps bfs_step_def
      visit_def)

lemma tailed9_trace:
  "\<exists>enq h. bfs_iter tailed9
       \<lparr>min_diamond = [6 \<mapsto> 3, 7 \<mapsto> 2, 8 \<mapsto> 0], max_diamond = [3 \<mapsto> 6, 2 \<mapsto> 7, 0 \<mapsto> 8],
           diamond_index = [6 \<mapsto> 0, 7 \<mapsto> 0, 8 \<mapsto> 0]\<rparr> 5
       (minimal_elements tailed9, {}, Map.empty) = Inr ([6, 5], enq, h) \<and>
     h 4 = Some 5 \<and> h 3 = Some 3 \<and> h 5 = None \<and>
     visit tailed9 \<lparr>min_diamond = [6 \<mapsto> 3, 7 \<mapsto> 2, 8 \<mapsto> 0],
        max_diamond = [3 \<mapsto> 6, 2 \<mapsto> 7, 0 \<mapsto> 8],
        diamond_index = [6 \<mapsto> 0, 7 \<mapsto> 0, 8 \<mapsto> 0]\<rparr> 6 h = Inl KeyError"
  by (simp add: tailed9_def poset_eval bfs_step_def visit_def)

lemma young3222_find_diamonds:
  "find_diamonds young3222 =
     Some \<lparr>min_diamond = [5 \<mapsto> 8, 3 \<mapsto> 6, 0 \<mapsto> 4], max_diamond = [8 \<mapsto> 5, 6 \<mapsto> 3, 4 \<mapsto> 0],
           diamond_index = [5 \<mapsto> 0, 3 \<mapsto> 1, 0 \<mapsto> 2]\<rparr>"
  by (simp add: find_diamonds_def young3222_def poset_eval extend_loop.simps extend_step_def
      candidates_def no_dicts_def)

lemma young3222_hooks: "DCompletePoset_hooks young3222 = Some (Inl KeyError)"
  unfolding DCompletePoset_hooks_def young3222_find_diamonds
  by (simp add: compute_hooks_def young3222_def poset_eval bfs.simps bfs_step_def visit_def)

lemma young3222_trace:
  "\<exists>enq h. bfs_iter young3222
       \<lparr>min_diamond = [5 \<mapsto> 8, 3 \<mapsto> 6, 0 \<mapsto> 4], max_diamond = [8 \<mapsto> 5, 6 \<mapsto> 3, 4 \<mapsto> 0],
           diamond_index = [5 \<mapsto> 0, 3 \<mapsto> 1, 0 \<mapsto> 2]\<rparr> 7
       (minimal_elements young3222, {}, Map.empty) = Inr ([0, 3], enq, h) \<and>
     h 1 = Some 5 \<and> h 4 = Some 3 \<and> h 3 = None \<and>
     visit young3222 \<lparr>min_diamond = [5 \<mapsto> 8, 3 \<mapsto> 6, 0 \<mapsto> 4],
        max_diamond = [8 \<mapsto> 5, 6 \<mapsto> 3, 4 \<mapsto> 0],
        diamond_index = [5 \<mapsto> 0, 3 \<mapsto> 1, 0 \<mapsto> 2]\<rparr> 0 h = Inl KeyError"
  by (simp add: young3222_def poset_eval bfs_step_def visit_def)

text \<open>
  C3, at two posets, both with an acyclic covering relation on their elements and
  agreeing cover queries (\<open>failing_posets_agree\<close>). The first is the Young diagram of \<open>(3, 2, 2, 2)\<close>: after seven passes
  of \<^verbatim>\<open>while queue\<close> the queue is \<^verbatim>\<open>[0, 3]\<close>, so the top \<open>0\<close> of the diamond
  \<open>(4, 1, 3, 0)\<close> is dequeued next while its side \<open>3\<close> is still waiting in the queue and has
  no hook; line 129 then raises \<^verbatim>\<open>KeyError\<close>, and so does the body of \<^verbatim>\<open>_hooks\<close>. The
  second is \<open>tailed9\<close>, a double-tailed diamond \<open>0 < 2 < 3 < 4, 5 < 6 < 7 < 8\<close> with one more
  minimal element \<open>1\<close> under the side \<open>4\<close>: after five passes the queue is \<^verbatim>\<open>[6, 5]\<close>, the top
  \<open>6\<close> of the diamond \<open>(3, 4, 5, 6)\<close> comes before its side \<open>5\<close>, and the body raises
  \<^verbatim>\<open>KeyError\<close>, whichever of the two minimal elements is listed first.
\<close>

theorem chain_top_dequeued_before_side:
  "(\<exists>D enq h. find_diamonds young3222 = Some D \<and>
      bfs_iter young3222 D 7 (minimal_elements young3222, {}, Map.empty)
        = Inr ([0, 3], enq, h) \<and>
      diamond_index D 0 = Some 2 \<and> diamonds young3222 ! 2 = (4, 1, 3, 0) \<and>
      h 3 = None \<and> visit young3222 D 0 h = Inl KeyError \<and>
      DCompletePoset_hooks young3222 = Some (Inl KeyError)) \<and>
   (\<exists>D enq h. find_diamonds tailed9 = Some D \<and>
      bfs_iter tailed9 D 5 (minimal_elements tailed9, {}, Map.empty) = Inr ([6, 5], enq, h) \<and>
      diamond_index D 6 = Some 0 \<and> diamonds tailed9 ! 0 = (3, 4, 5, 6) \<and>
      h 5 = None \<and> visit tailed9 D 6 h = Inl KeyError \<and>
      DCompletePoset_hooks tailed9 = Some (Inl KeyError) \<and>
      DCompletePoset_hooks tailed9_swapped = Some (Inl KeyError))"
proof (rule conjI)
  let ?D = "\<lparr>min_diamond = [5 \<mapsto> 8, 3 \<mapsto> 6, 0 \<mapsto> 4], max_diamond = [8 \<mapsto> 5, 6 \<mapsto> 3, 4 \<mapsto> 0],
           diamond_index = [5 \<mapsto> 0, 3 \<mapsto> 1, 0 \<mapsto> 2]\<rparr> :: int dicts"
  from young3222_trace obtain enq h where
    "bfs_iter young3222 ?D 7 (minimal_elements young3222, {}, Map.empty)
       = Inr ([0, 3], enq, h)"
    "h 3 = None" "visit young3222 ?D 0 h = Inl KeyError"
    by blast
  moreover have "diamond_index ?D 0 = Some 2" by simp
  moreover have "diamonds young3222 ! 2 = (4, 1, 3, 0)"
    by (simp add: young3222_def poset_eval)
  ultimately show "\<exists>D enq h. find_diamonds young3222 = Some D \<and>
      bfs_iter young3222 D 7 (minimal_elements young3222, {}, Map.empty)
        = Inr ([0, 3], enq, h) \<and>
      diamond_index D 0 = Some 2 \<and> diamonds young3222 ! 2 = (4, 1, 3, 0) \<and>
      h 3 = None \<and> visit young3222 D 0 h = Inl KeyError \<and>
      DCompletePoset_hooks young3222 = Some (Inl KeyError)"
    using young3222_find_diamonds young3222_hooks by blast
next
  let ?D = "\<lparr>min_diamond = [6 \<mapsto> 3, 7 \<mapsto> 2, 8 \<mapsto> 0], max_diamond = [3 \<mapsto> 6, 2 \<mapsto> 7, 0 \<mapsto> 8],
           diamond_index = [6 \<mapsto> 0, 7 \<mapsto> 0, 8 \<mapsto> 0]\<rparr> :: int dicts"
  from tailed9_trace obtain enq h where
    "bfs_iter tailed9 ?D 5 (minimal_elements tailed9, {}, Map.empty) = Inr ([6, 5], enq, h)"
    "h 5 = None" "visit tailed9 ?D 6 h = Inl KeyError"
    by blast
  moreover have "diamond_index ?D 6 = Some 0" by simp
  moreover have "diamonds tailed9 ! 0 = (3, 4, 5, 6)"
    by (simp add: tailed9_def poset_eval)
  ultimately show "\<exists>D enq h. find_diamonds tailed9 = Some D \<and>
      bfs_iter tailed9 D 5 (minimal_elements tailed9, {}, Map.empty) = Inr ([6, 5], enq, h) \<and>
      diamond_index D 6 = Some 0 \<and> diamonds tailed9 ! 0 = (3, 4, 5, 6) \<and>
      h 5 = None \<and> visit tailed9 D 6 h = Inl KeyError \<and>
      DCompletePoset_hooks tailed9 = Some (Inl KeyError) \<and>
      DCompletePoset_hooks tailed9_swapped = Some (Inl KeyError)"
    using tailed9_find_diamonds tailed9_hooks tailed9_swapped_hooks by blast
qed

text \<open>
  C6, at the same posets: \<open>0\<close> is an element of the Young diagram and \<open>6\<close> one of \<open>tailed9\<close>,
  and yet \<^verbatim>\<open>get_hook\<close> on a new instance raises \<^verbatim>\<open>KeyError\<close> for them, as does
  \<^verbatim>\<open>get_hooks()\<close>: no mapping at all is computed.
\<close>

theorem get_hook_raises_on_element:
  "0 \<in> set (elements young3222) \<and>
   (\<exists>s. get_hook young3222 0 new_object = Some (Inl KeyError, s)) \<and>
   (\<exists>s. get_hooks young3222 new_object = Some (Inl KeyError, s)) \<and>
   6 \<in> set (elements tailed9) \<and>
   (\<exists>s. get_hook tailed9 6 new_object = Some (Inl KeyError, s)) \<and>
   (\<exists>s. get_hooks tailed9 new_object = Some (Inl KeyError, s))"
  by (simp add: get_hook_def get_hooks_def hooks_attribute_def new_object_def tailed9_hooks
      young3222_hooks)
    (simp add: tailed9_def young3222_def)

section \<open>Properties of the accessors\<close>

lemma hooks_attribute_cached:
  "hooks_cache s = Some c \<Longrightarrow> hooks_attribute P s = Some (Inr c, s)"
  by (simp add: hooks_attribute_def)

lemma get_hooks_cached:
  "hooks_cache s = Some c \<Longrightarrow>
   get_hooks P s =
     Some (Inr (next_addr s),
           s\<lparr>heap := (heap s)(next_addr s := heap s c), next_addr := Suc (next_addr s)\<rparr>)"
  by (simp add: get_hooks_def hooks_attribute_cached alloc_def)

lemma get_hook_cached:
  "hooks_cache s = Some c \<Longrightarrow>
   get_hook P e s =
     Some (case heap s c e of None \<Rightarrow> Inl KeyError | Some v \<Rightarrow> Inr v, s)"
  by (simp add: get_hook_def hooks_attribute_cached split: option.splits)

lemma hooks_attribute_returns:
  assumes "cache_allocated s" and "hooks_attribute P s = Some (Inr c, s')"
  shows "hooks_cache s' = Some c \<and> c < next_addr s'"
  using assms
  by (auto simp: hooks_attribute_def cache_allocated_def alloc_def
      split: option.splits sum.splits)

lemma get_hooks_returns:
  assumes alloc: "cache_allocated s" and first: "get_hooks P s = Some (Inr a1, s1)"
  shows "\<exists>c. hooks_cache s1 = Some c \<and> c < a1 \<and> next_addr s1 = Suc a1 \<and>
           heap s1 a1 = heap s1 c"
proof -
  from first obtain c s' where
    attr: "hooks_attribute P s = Some (Inr c, s')" and
    copy: "alloc (heap s' c) s' = (a1, s1)"
    by (auto simp: get_hooks_def split: option.splits sum.splits prod.splits)
  from hooks_attribute_returns [OF alloc attr]
  have "hooks_cache s' = Some c" "c < next_addr s'" by simp_all
  with copy show ?thesis by (auto simp: alloc_def)
qed

text \<open>
  C9. Let \<^verbatim>\<open>get_hooks()\<close> return the dictionary object \<open>a1\<close>. Then \<open>a1\<close> is not the cached
  object \<open>c\<close> but has its content (a copy). A second call returns an object with the same
  content, without running the body of \<^verbatim>\<open>_hooks\<close> again and without touching the cache.
  After the caller has replaced the content of \<open>a1\<close> by any \<open>d\<close>, \<^verbatim>\<open>get_hooks()\<close> still
  returns the original content and \<^verbatim>\<open>get_hook(e)\<close> the original answer, again without
  running the body.
\<close>

theorem get_hooks_returns_copy_of_cache:
  assumes "cache_allocated s" and "get_hooks P s = Some (Inr a1, s1)"
  shows "\<exists>c. hooks_cache s1 = Some c \<and> a1 \<noteq> c \<and> heap s1 a1 = heap s1 c \<and>
    (hooks_cache s = None \<longrightarrow>
       DCompletePoset_hooks P = Some (Inr (heap s1 a1)) \<and>
       evaluations s1 = Suc (evaluations s)) \<and>
    (\<exists>a2 s2. get_hooks P s1 = Some (Inr a2, s2) \<and> heap s2 a2 = heap s1 a1 \<and>
       hooks_cache s2 = Some c \<and> heap s2 c = heap s1 c \<and>
       evaluations s2 = evaluations s1) \<and>
    (\<forall>d. \<exists>a3 s3. get_hooks P (mutate a1 d s1) = Some (Inr a3, s3) \<and>
       heap s3 a3 = heap s1 a1 \<and> evaluations s3 = evaluations s1) \<and>
    (\<forall>d e. \<exists>r s3 s4. get_hook P e s1 = Some (r, s3) \<and>
       get_hook P e (mutate a1 d s1) = Some (r, s4) \<and>
       r = (case heap s1 a1 e of None \<Rightarrow> Inl KeyError | Some v \<Rightarrow> Inr v) \<and>
       evaluations s3 = evaluations s1 \<and> evaluations s4 = evaluations s1)"
proof -
  from get_hooks_returns [OF assms] obtain c where
    c: "hooks_cache s1 = Some c" and lt: "c < a1" and nxt: "next_addr s1 = Suc a1" and
    eq: "heap s1 a1 = heap s1 c"
    by blast
  from lt have ne: "a1 \<noteq> c" "c \<noteq> Suc a1" by simp_all
  have mc: "hooks_cache (mutate a1 d s1) = Some c" for d
    by (simp add: mutate_def c)
  have mh: "heap (mutate a1 d s1) c = heap s1 c" for d
    using ne by (simp add: mutate_def)
  have again: "\<exists>a2 s2. get_hooks P s1 = Some (Inr a2, s2) \<and> heap s2 a2 = heap s1 a1 \<and>
       hooks_cache s2 = Some c \<and> heap s2 c = heap s1 c \<and>
       evaluations s2 = evaluations s1"
    using ne by (simp add: get_hooks_cached [OF c] eq nxt c)
  have mut: "\<forall>d. \<exists>a3 s3. get_hooks P (mutate a1 d s1) = Some (Inr a3, s3) \<and>
       heap s3 a3 = heap s1 a1 \<and> evaluations s3 = evaluations s1"
    by (simp add: get_hooks_cached [OF mc] mh eq) (simp add: mutate_def)
  have hook: "\<forall>d e. \<exists>r s3 s4. get_hook P e s1 = Some (r, s3) \<and>
       get_hook P e (mutate a1 d s1) = Some (r, s4) \<and>
       r = (case heap s1 a1 e of None \<Rightarrow> Inl KeyError | Some v \<Rightarrow> Inr v) \<and>
       evaluations s3 = evaluations s1 \<and> evaluations s4 = evaluations s1"
    by (simp add: get_hook_cached [OF mc] get_hook_cached [OF c] mh eq) (simp add: mutate_def)
  have fresh: "hooks_cache s = None \<longrightarrow>
       DCompletePoset_hooks P = Some (Inr (heap s1 a1)) \<and>
       evaluations s1 = Suc (evaluations s)"
    using assms(2)
    by (auto simp: get_hooks_def hooks_attribute_def alloc_def
        split: option.splits sum.splits)
  show ?thesis
    by (rule exI [of _ c]) (intro conjI c ne(1) eq fresh again mut hook)
qed

theorem get_hooks_returns_copy_of_cache_witness:
  "cache_allocated (new_object :: int dcp_object) \<and>
   (\<exists>a1 s1 c. get_hooks double_tailed_diamond new_object = Some (Inr a1, s1) \<and>
      hooks_cache s1 = Some c \<and> a1 \<noteq> c \<and>
      heap s1 a1 = [1 \<mapsto> 1, 2 \<mapsto> 2, 3 \<mapsto> 3, 4 \<mapsto> 3, 5 \<mapsto> 4, 6 \<mapsto> 5] \<and>
      heap s1 c = heap s1 a1 \<and> evaluations s1 = 1 \<and>
      (\<exists>a2 s2. get_hooks double_tailed_diamond s1 = Some (Inr a2, s2) \<and>
         heap s2 a2 = heap s1 a1 \<and> evaluations s2 = 1) \<and>
      (\<exists>a3 s3. get_hooks double_tailed_diamond (mutate a1 Map.empty s1) = Some (Inr a3, s3) \<and>
         heap s3 a3 = heap s1 a1 \<and> evaluations s3 = 1) \<and>
      (\<exists>s3. get_hook double_tailed_diamond 6 (mutate a1 Map.empty s1) = Some (Inr 5, s3)))"
proof -
  let ?h = "[1 \<mapsto> 1, 2 \<mapsto> 2, 3 \<mapsto> 3, 4 \<mapsto> 3, 5 \<mapsto> 4, 6 \<mapsto> 5] :: int \<rightharpoonup> int"
  have new: "cache_allocated (new_object :: int dcp_object)"
    "hooks_cache (new_object :: int dcp_object) = None"
    "evaluations (new_object :: int dcp_object) = 0"
    by (simp_all add: cache_allocated_def new_object_def)
  obtain a1 s1 where first: "get_hooks double_tailed_diamond new_object = Some (Inr a1, s1)"
    by (simp add: get_hooks_def hooks_attribute_def new(2) dtd_hooks alloc_def)
  from get_hooks_returns_copy_of_cache [OF new(1) first] new(2,3) dtd_hooks
  obtain c where
    c: "hooks_cache s1 = Some c" "a1 \<noteq> c" "heap s1 a1 = heap s1 c" and
    h: "heap s1 a1 = ?h" "evaluations s1 = 1" and
    again: "\<exists>a2 s2. get_hooks double_tailed_diamond s1 = Some (Inr a2, s2) \<and>
       heap s2 a2 = heap s1 a1 \<and> evaluations s2 = evaluations s1" and
    mut: "\<forall>d. \<exists>a3 s3. get_hooks double_tailed_diamond (mutate a1 d s1) = Some (Inr a3, s3) \<and>
       heap s3 a3 = heap s1 a1 \<and> evaluations s3 = evaluations s1" and
    hook: "\<forall>d e. \<exists>r s3 s4. get_hook double_tailed_diamond e s1 = Some (r, s3) \<and>
       get_hook double_tailed_diamond e (mutate a1 d s1) = Some (r, s4) \<and>
       r = (case heap s1 a1 e of None \<Rightarrow> Inl KeyError | Some v \<Rightarrow> Inr v) \<and>
       evaluations s3 = evaluations s1 \<and> evaluations s4 = evaluations s1"
    by auto
  from hook [rule_format, of 6 Map.empty] h(1)
  have "\<exists>s3. get_hook double_tailed_diamond 6 (mutate a1 Map.empty s1) = Some (Inr 5, s3)"
    by auto
  with first c h again mut new(1) show ?thesis by (auto simp del: fun_upd_apply)
qed

section \<open>Properties of \<^verbatim>\<open>ImageManifoldSubset.__contains__\<close>\<close>

text \<open>
  C10. \<^verbatim>\<open>__contains__\<close> answers \<open>True\<close> whenever the inherited test does; of the points
  the inherited test rejects, it answers \<open>False\<close> for every one outside the codomain of
  the map and raises \<^verbatim>\<open>NotImplementedError\<close> for every one inside: it never returns an
  answer for a point of the codomain that the superclass does not know.
\<close>

theorem contains_three_cases:
  "(super_contains p \<longrightarrow>
      ImageManifoldSubset_contains super_contains in_codomain p = Inr True) \<and>
   (\<not> super_contains p \<longrightarrow> \<not> in_codomain p \<longrightarrow>
      ImageManifoldSubset_contains super_contains in_codomain p = Inr False) \<and>
   (\<not> super_contains p \<longrightarrow> in_codomain p \<longrightarrow>
      ImageManifoldSubset_contains super_contains in_codomain p = Inl NotImplementedError)"
  by (simp add: ImageManifoldSubset_contains_def)

theorem contains_three_cases_witness:
  "ImageManifoldSubset_contains (\<lambda>p. p = 0) (\<lambda>p. p < 2) (0::int) = Inr True \<and>
   ImageManifoldSubset_contains (\<lambda>p. p = 0) (\<lambda>p. p < 2) (5::int) = Inr False \<and>
   ImageManifoldSubset_contains (\<lambda>p. p = 0) (\<lambda>p. p < 2) (1::int) = Inl NotImplementedError"
  using contains_three_cases [of "\<lambda>p. p = 0" "0::int" "\<lambda>p. p < 2"]
    contains_three_cases [of "\<lambda>p. p = 0" "5::int" "\<lambda>p. p < 2"]
    contains_three_cases [of "\<lambda>p. p = 0" "1::int" "\<lambda>p. p < 2"]
  by simp

end
